theory Spec2Isabelle
  imports Complex_Main "HOL-Library.Sublist"
begin

section \<open>JavaScript numbers\<close>

text \<open>
  The scheduler of \<^verbatim>\<open>lib/visemeScheduler.ts\<close> computes with JavaScript numbers and
  \<^verbatim>\<open>Float32Array\<close>s. A number is modelled as an exact real or the one value the source
  itself tests for, \<^verbatim>\<open>NaN\<close> (\<^verbatim>\<open>isFinite\<close>, \<^verbatim>\<open>Number.isNaN\<close>, \<^verbatim>\<open>x || 0\<close>).
  Arithmetic propagates \<^verbatim>\<open>NaN\<close> and every comparison with \<^verbatim>\<open>NaN\<close> is false, as in
  JavaScript. Rounding (to double or to float32) and overflow to an infinity are not
  modelled: every other number is a real. Reading a typed array out of range gives
  \<^verbatim>\<open>undefined\<close>, which every use in this file (arithmetic, comparison, \<^verbatim>\<open>||\<close>) treats
  as it treats \<^verbatim>\<open>NaN\<close>, so such a read is modelled as \<^verbatim>\<open>NaN\<close>.
\<close>

datatype number = NaN | Fin real

instantiation number :: "{plus,minus,uminus,times,inverse,ord}"
begin

fun plus_number :: "number \<Rightarrow> number \<Rightarrow> number" where
  "plus_number (Fin a) (Fin b) = Fin (a + b)"
| "plus_number _ _ = NaN"

fun minus_number :: "number \<Rightarrow> number \<Rightarrow> number" where
  "minus_number (Fin a) (Fin b) = Fin (a - b)"
| "minus_number _ _ = NaN"

fun uminus_number :: "number \<Rightarrow> number" where
  "uminus_number (Fin a) = Fin (- a)"
| "uminus_number NaN = NaN"

fun times_number :: "number \<Rightarrow> number \<Rightarrow> number" where
  "times_number (Fin a) (Fin b) = Fin (a * b)"
| "times_number _ _ = NaN"

text \<open>Every division of the source stands behind a test that its divisor is positive,
  but for the crossfade window's; a zero divisor (an infinity or \<^verbatim>\<open>NaN\<close> in JavaScript)
  is given the value \<^verbatim>\<open>NaN\<close>.\<close>

fun divide_number :: "number \<Rightarrow> number \<Rightarrow> number" where
  "divide_number (Fin a) (Fin b) = (if b = 0 then NaN else Fin (a / b))"
| "divide_number _ _ = NaN"

fun inverse_number :: "number \<Rightarrow> number" where
  "inverse_number (Fin a) = (if a = 0 then NaN else Fin (inverse a))"
| "inverse_number NaN = NaN"

fun less_number :: "number \<Rightarrow> number \<Rightarrow> bool" where
  "less_number (Fin a) (Fin b) = (a < b)"
| "less_number _ _ = False"

fun less_eq_number :: "number \<Rightarrow> number \<Rightarrow> bool" where
  "less_eq_number (Fin a) (Fin b) = (a \<le> b)"
| "less_eq_number _ _ = False"

instance ..

end

fun isFinite :: "number \<Rightarrow> bool" where
  "isFinite (Fin a) = True"
| "isFinite NaN = False"

fun isNaN :: "number \<Rightarrow> bool" where
  "isNaN (Fin a) = False"
| "isNaN NaN = True"

text \<open>Truthiness of a number: \<^verbatim>\<open>0\<close>, \<^verbatim>\<open>NaN\<close> and \<^verbatim>\<open>undefined\<close> are falsy.\<close>

fun truthy :: "number \<Rightarrow> bool" where
  "truthy (Fin a) = (a \<noteq> 0)"
| "truthy NaN = False"

text \<open>\<^verbatim>\<open>x || d\<close> on numbers.\<close>

definition or_else :: "number \<Rightarrow> number \<Rightarrow> number" where
  "or_else x d = (if truthy x then x else d)"

text \<open>\<^verbatim>\<open>Number(v)\<close> of an optional field: \<^verbatim>\<open>Number(undefined)\<close> is \<^verbatim>\<open>NaN\<close>. A present
  field is given as the number \<^verbatim>\<open>Number\<close> makes of it.\<close>

fun Number :: "number option \<Rightarrow> number" where
  "Number None = NaN"
| "Number (Some x) = x"

fun Math_max :: "number \<Rightarrow> number \<Rightarrow> number" where
  "Math_max (Fin a) (Fin b) = Fin (max a b)"
| "Math_max _ _ = NaN"

fun Math_min :: "number \<Rightarrow> number \<Rightarrow> number" where
  "Math_min (Fin a) (Fin b) = Fin (min a b)"
| "Math_min _ _ = NaN"

fun Math_exp :: "number \<Rightarrow> number" where
  "Math_exp (Fin a) = Fin (exp a)"
| "Math_exp NaN = NaN"

definition Math_PI :: number where
  "Math_PI = Fin pi"

text \<open>\<^verbatim>\<open>arr[i]\<close> on a \<^verbatim>\<open>Float32Array\<close>.\<close>

definition rd :: "number list \<Rightarrow> int \<Rightarrow> number" where
  "rd arr i = (if 0 \<le> i \<and> i < int (length arr) then arr ! nat i else NaN)"

text \<open>\<^verbatim>\<open>arr[i]\<close> on an array of rows: \<^verbatim>\<open>undefined\<close> out of range.\<close>

definition row_at :: "'a list \<Rightarrow> int \<Rightarrow> 'a option" where
  "row_at arr i = (if 0 \<le> i \<and> i < int (length arr) then Some (arr ! nat i) else None)"

section \<open>The helpers of the scheduler\<close>

definition COLS :: nat where
  "COLS = 15"

definition clamp01 :: "number \<Rightarrow> number" where
  "clamp01 x = (if x < Fin 0 then Fin 0 else (if x > Fin 1 then Fin 1 else x))"

definition lerp :: "number \<Rightarrow> number \<Rightarrow> number \<Rightarrow> number" where
  "lerp a b t = a + (b - a) * (if t < Fin 0 then Fin 0 else if t > Fin 1 then Fin 1 else t)"

definition catmullRom :: "number \<Rightarrow> number \<Rightarrow> number \<Rightarrow> number \<Rightarrow> number \<Rightarrow> number" where
  "catmullRom p0 p1 p2 p3 t =
     (let t2 = t * t; t3 = t2 * t in
      Fin 0.5 * ((Fin 2 * p1) + (- p0 + p2) * t
        + (Fin 2 * p0 - Fin 5 * p1 + Fin 4 * p2 - p3) * t2
        + (- p0 + Fin 3 * p1 - Fin 3 * p2 + p3) * t3))"

text \<open>The loop of \<^verbatim>\<open>lowerBound\<close>; \<^verbatim>\<open>(lo + hi) >>> 1\<close> halves the non-negative sum.\<close>

function lowerBound_loop :: "number list \<Rightarrow> number \<Rightarrow> int \<Rightarrow> int \<Rightarrow> int" where
  "lowerBound_loop arr t lo hi =
     (if lo \<le> hi then
        (let mid = (lo + hi) div 2 in
         if rd arr mid < t then lowerBound_loop arr t (mid + 1) hi
         else lowerBound_loop arr t lo (mid - 1))
      else lo)"
  by pat_completeness auto
termination
  by (relation "measure (\<lambda>(arr, t, lo, hi). nat (hi - lo + 1))") auto

declare lowerBound_loop.simps [simp del]

definition lowerBound :: "number list \<Rightarrow> number \<Rightarrow> int" where
  "lowerBound arr t =
     max 1 (min (int (length arr) - 1) (lowerBound_loop arr t 0 (int (length arr) - 1)))"

section \<open>Chunk messages and the raw time axis\<close>

text \<open>\<^verbatim>\<open>AudioChunkMsg\<close>. An absent field is \<open>None\<close>; a row of \<^verbatim>\<open>viseme\<close> may be
  \<^verbatim>\<open>null\<close>. Every numeric value of a message is given as the number that \<^verbatim>\<open>Number\<close>
  makes of it, \<^verbatim>\<open>NaN\<close> for what is not a number. The metadata fields (\<^verbatim>\<open>viseme_format\<close>, \<^verbatim>\<open>viseme_profile\<close>,
  \<^verbatim>\<open>chunk_index\<close>, \<^verbatim>\<open>offset_ms\<close>) are never read by the scheduler and are left out.\<close>

record audio_chunk_msg =
  audio :: "string option"
  audio_format :: "string option"
  viseme :: "number list option list option"
  viseme_times :: "number list option"
  duration_ms :: "number option"
  frame_ms :: "number option"
  viseme_fps :: "number option"

text \<open>\<^verbatim>\<open>Array.isArray(msg.viseme_times) && msg.viseme_times.length >= 2\<close>.\<close>

fun explicit_times :: "number list option \<Rightarrow> number list option" where
  "explicit_times None = None"
| "explicit_times (Some ts) = (if length ts \<ge> 2 then Some ts else None)"

text \<open>\<^verbatim>\<open>msg.frame_ms && msg.frame_ms > 0\<close>, and the same test of \<^verbatim>\<open>viseme_fps\<close>.\<close>

fun positive_hint :: "number option \<Rightarrow> number option" where
  "positive_hint None = None"
| "positive_hint (Some x) = (if truthy x \<and> x > Fin 0 then Some x else None)"

text \<open>The loop over the explicit timestamps, \<^verbatim>\<open>prev\<close> carried along.\<close>

fun buildTimes_loop :: "number \<Rightarrow> number list \<Rightarrow> number list" where
  "buildTimes_loop prev [] = []"
| "buildTimes_loop prev (ti # ts) =
     (let v = Math_max (Fin 0) (if isFinite ti then ti else prev);
          out_i = (if v < prev then prev else v)
      in out_i # buildTimes_loop out_i ts)"

definition buildTimes :: "nat \<Rightarrow> audio_chunk_msg \<Rightarrow> number list" where
  "buildTimes framesN msg =
     (case explicit_times (viseme_times msg) of
        Some ts \<Rightarrow> buildTimes_loop (Fin 0) (take framesN ts)
      | None \<Rightarrow>
          (case positive_hint (frame_ms msg) of
             Some fms \<Rightarrow>
               (let dt = fms / Fin 1000 in map (\<lambda>i. Fin (real i) * dt) [0..<framesN])
           | None \<Rightarrow>
               (case positive_hint (viseme_fps msg) of
                  Some fps \<Rightarrow>
                    (let dt = Fin 1 / fps in map (\<lambda>i. Fin (real i) * dt) [0..<framesN])
                | None \<Rightarrow>
                    (let durS = Math_max (Fin 0.02)
                                  (or_else (Number (duration_ms msg)) (Fin 0) / Fin 1000);
                         step = (if framesN > 1 then durS / Fin (real (framesN - 1)) else durS)
                     in map (\<lambda>i. Fin (real i) * step) [0..<framesN]))))"

section \<open>The scheduler state\<close>

text \<open>The part of an \<^verbatim>\<open>HTMLAudioElement\<close> that the scheduler sets: its source, whether
  \<^verbatim>\<open>play()\<close> was called and not \<^verbatim>\<open>pause()\<close> since, and whether the \<^verbatim>\<open>loadedmetadata\<close>
  listener \<^verbatim>\<open>onMeta\<close> is registered. What the browser reports of the element
  (\<^verbatim>\<open>duration\<close>, \<^verbatim>\<open>currentTime\<close>) is read from the environment.\<close>

record audio_el =
  src :: string
  playing :: bool
  listening :: bool

text \<open>\<^verbatim>\<open>type Chunk\<close>. The field \<^verbatim>\<open>times\<close> is named \<open>times_scaled\<close> and \<^verbatim>\<open>done\<close>
  is named \<open>done_flag\<close>.\<close>

record chunk =
  frames :: "number list list"
  timesRaw :: "number list"
  times_scaled :: "number list"
  duration :: number
  audioEl :: "audio_el option"
  startedAt :: number
  fadeInEnd :: number
  fadeInFrom :: "number list"
  done_flag :: bool

text \<open>The parameter \<^verbatim>\<open>opts\<close> of \<^verbatim>\<open>createVisemeScheduler\<close>.\<close>

record opts =
  opt_zeta :: "number option"
  opt_freqBase :: "number option"
  opt_freqJaw :: "number option"
  opt_exaggeration :: "number option"
  opt_crossfadeS :: "number option"
  opt_neutralDecayPerSec :: "number option"

text \<open>The variables of the closure of \<^verbatim>\<open>createVisemeScheduler\<close>. The buffer \<^verbatim>\<open>tmp\<close> is
  written in full by \<^verbatim>\<open>sampleCatmullRom\<close> before it is read, and is a local value here.
  \<open>submitted\<close> and \<open>started\<close> are history variables, not in the source and read by no
  operation: the chunks in the order \<^verbatim>\<open>pushChunk\<close> queued them, and in the order
  \<^verbatim>\<open>startNext\<close> took them from the queue.\<close>

record sched =
  zeta :: number
  freqBase :: number
  freqJaw :: number
  exaggeration :: number
  crossfadeS :: number
  neutralDecayPerSec :: number
  queue :: "chunk list"
  active :: "chunk option"
  muted :: bool
  pos :: "number list"
  vel :: "number list"
  lastTick :: number
  submitted :: "chunk list"
  started :: "chunk list"

text \<open>What a call reads from the browser: \<^verbatim>\<open>performance.now() / 1000\<close>, and
  \<^verbatim>\<open>duration\<close> and \<^verbatim>\<open>currentTime\<close> of the audio element of the chunk at hand.\<close>

record env =
  now :: real
  el_duration :: number
  el_currentTime :: number

text \<open>\<^verbatim>\<open>a ?? b\<close>.\<close>

fun nullish :: "number option \<Rightarrow> number \<Rightarrow> number" where
  "nullish None d = d"
| "nullish (Some x) d = x"

definition createVisemeScheduler :: "opts \<Rightarrow> real \<Rightarrow> sched" where
  "createVisemeScheduler os now0 =
     \<lparr> zeta = nullish (opt_zeta os) (Fin 0.84),
       freqBase = nullish (opt_freqBase os) (Fin 7.5),
       freqJaw = nullish (opt_freqJaw os) (Fin 10),
       exaggeration = nullish (opt_exaggeration os) (Fin 1.04),
       crossfadeS = nullish (opt_crossfadeS os) (Fin 0.085),
       neutralDecayPerSec = nullish (opt_neutralDecayPerSec os) (Fin 1),
       queue = [],
       active = None,
       muted = False,
       pos = replicate COLS (Fin 0),
       vel = replicate COLS (Fin 0),
       lastTick = Fin now0,
       submitted = [],
       started = [] \<rparr>"

definition no_opts :: opts where
  "no_opts = \<lparr> opt_zeta = None, opt_freqBase = None, opt_freqJaw = None,
     opt_exaggeration = None, opt_crossfadeS = None, opt_neutralDecayPerSec = None \<rparr>"

section \<open>Activation\<close>

text \<open>\<^verbatim>\<open>ch.timesRaw[ch.timesRaw.length - 1] || 0\<close>.\<close>

definition rawTail :: "chunk \<Rightarrow> number" where
  "rawTail ch = or_else (rd (timesRaw ch) (int (length (timesRaw ch)) - 1)) (Fin 0)"

text \<open>\<^verbatim>\<open>ch.audioEl && !muted\<close>.\<close>

definition audible :: "sched \<Rightarrow> chunk \<Rightarrow> bool" where
  "audible st ch = (audioEl ch \<noteq> None \<and> \<not> muted st)"

text \<open>The closure \<^verbatim>\<open>begin\<close> of \<^verbatim>\<open>startNext\<close>, on the chunk \<^verbatim>\<open>ch\<close> it has captured. With
  an audible element it calls \<^verbatim>\<open>play()\<close> and sets \<^verbatim>\<open>onended\<close>; otherwise it arms the
  fallback timer. Both callbacks are the event \<open>Completed\<close> below.\<close>

definition begin_chunk :: "env \<Rightarrow> sched \<Rightarrow> number \<Rightarrow> chunk \<Rightarrow> chunk" where
  "begin_chunk e st durEl ch =
     (let scale = (if rawTail ch > Fin 0 then durEl / rawTail ch else Fin 1);
          ts = map (\<lambda>t. t * scale) (timesRaw ch);
          dur = or_else (rd ts (int (length ts) - 1)) (Math_max (Fin 0.02) durEl);
          t_start = Fin (now e)
      in ch \<lparr> times_scaled := ts,
              duration := dur,
              startedAt := t_start,
              fadeInFrom := pos st,
              fadeInEnd := t_start + crossfadeS st,
              audioEl := (if audible st ch
                          then map_option (\<lambda>a. a \<lparr> playing := True \<rparr>) (audioEl ch)
                          else audioEl ch) \<rparr>)"

text \<open>The closure \<^verbatim>\<open>onMeta\<close>: the duration the element reports if it is a positive
  number, else \<^verbatim>\<open>ch.duration || (rawTail || 0) || 0.5\<close>; the listener is removed.\<close>

definition onMeta :: "env \<Rightarrow> sched \<Rightarrow> chunk \<Rightarrow> chunk" where
  "onMeta e st ch =
     (let d = (if isFinite (el_duration e) \<and> el_duration e > Fin 0 then el_duration e
               else or_else (or_else (duration ch) (rawTail ch)) (Fin 0.5))
      in begin_chunk e st d
           (ch \<lparr> audioEl := map_option (\<lambda>a. a \<lparr> listening := False \<rparr>) (audioEl ch) \<rparr>))"

definition startNext :: "env \<Rightarrow> sched \<Rightarrow> sched" where
  "startNext e st =
     (if active st \<noteq> None then st
      else case queue st of
        [] \<Rightarrow> st
      | ch # rest \<Rightarrow>
          (let st1 = st \<lparr> queue := rest, active := Some ch, started := started st @ [ch] \<rparr>
           in if audible st1 ch then
                (let ch1 = ch \<lparr> audioEl := map_option (\<lambda>a. a \<lparr> listening := True \<rparr>) (audioEl ch) \<rparr>
                 in if \<not> isNaN (el_duration e) \<and> el_duration e > Fin 0
                    then st1 \<lparr> active := Some (onMeta e st1 ch1) \<rparr>
                    else st1 \<lparr> active := Some ch1 \<rparr>)
              else
                (let d = or_else (duration ch) (rawTail ch)
                 in st1 \<lparr> active := Some (begin_chunk e st1 d ch) \<rparr>)))"

section \<open>Sampling\<close>

datatype error = TypeError

text \<open>\<^verbatim>\<open>frames[i] || frames[j]\<close>: a row is an object and so truthy; only a missing row
  falls through.\<close>

definition row_or :: "number list list \<Rightarrow> int \<Rightarrow> int \<Rightarrow> number list option" where
  "row_or fs i j = (case row_at fs i of Some r \<Rightarrow> Some r | None \<Rightarrow> row_at fs j)"

text \<open>\<^verbatim>\<open>sampleCatmullRom\<close> returns what it has written to \<^verbatim>\<open>out\<close>. Reading a channel of
  a row that is \<^verbatim>\<open>undefined\<close> throws.\<close>

definition sampleCatmullRom :: "chunk \<Rightarrow> number \<Rightarrow> error + number list" where
  "sampleCatmullRom ch t =
     (let tms = times_scaled ch;
          idx1 = lowerBound tms t;
          i1 = idx1; i0 = idx1 - 1;
          i2 = min (i1 + 1) (int (length (frames ch)) - 1);
          i_1 = max (i0 - 1) 0;
          t0 = rd tms i0; t1 = rd tms i1;
          u = (if t1 > t0 then (t - t0) / (t1 - t0) else Fin 0);
          last_i = int (length (frames ch)) - 1
      in case (row_or (frames ch) i_1 0, row_or (frames ch) i0 0,
               row_or (frames ch) i1 last_i, row_or (frames ch) i2 last_i) of
           (Some f_1, Some f0, Some f1, Some f2) \<Rightarrow>
             Inr (map (\<lambda>i. clamp01 (catmullRom (rd f_1 (int i)) (rd f0 (int i))
                                      (rd f1 (int i)) (rd f2 (int i)) u)) [0..<COLS])
         | _ \<Rightarrow> Inl TypeError)"

text \<open>The same sampling with the roundings of the program written out. The source computes
  in doubles and stores the result in a \<^verbatim>\<open>Float32Array\<close>: \<open>r\<close> stands for the rounding of one
  double operation and \<open>s\<close> for the rounding of the store. Every \<^verbatim>\<open>+\<close>, \<^verbatim>\<open>-\<close>, \<^verbatim>\<open>*\<close> and
  \<^verbatim>\<open>/\<close> of \<^verbatim>\<open>catmullRom\<close> and of the local parameter \<^verbatim>\<open>u\<close> is rounded once, in the order
  JavaScript evaluates them; the unary minus, the comparisons, \<^verbatim>\<open>clamp01\<close> and the reads of
  the arrays are exact. With the identity for \<open>r\<close> and \<open>s\<close> these are \<open>catmullRom\<close> and
  \<open>sampleCatmullRom\<close>.\<close>

fun rnd :: "(real \<Rightarrow> real) \<Rightarrow> number \<Rightarrow> number" where
  "rnd r (Fin x) = Fin (r x)"
| "rnd r NaN = NaN"

definition catmullRom_fl ::
  "(real \<Rightarrow> real) \<Rightarrow> number \<Rightarrow> number \<Rightarrow> number \<Rightarrow> number \<Rightarrow> number \<Rightarrow> number" where
  "catmullRom_fl r p0 p1 p2 p3 t =
     (let t2 = rnd r (t * t); t3 = rnd r (t2 * t) in
      rnd r (Fin 0.5 * rnd r (rnd r (rnd r
        (rnd r (Fin 2 * p1) + rnd r (rnd r (- p0 + p2) * t))
        + rnd r (rnd r (rnd r (rnd r (rnd r (Fin 2 * p0) - rnd r (Fin 5 * p1))
                               + rnd r (Fin 4 * p2)) - p3) * t2))
        + rnd r (rnd r (rnd r (rnd r (- p0 + rnd r (Fin 3 * p1)) - rnd r (Fin 3 * p2)) + p3)
                 * t3))))"

definition sampleCatmullRom_fl ::
  "(real \<Rightarrow> real) \<Rightarrow> (real \<Rightarrow> real) \<Rightarrow> chunk \<Rightarrow> number \<Rightarrow> error + number list" where
  "sampleCatmullRom_fl r s ch t =
     (let tms = times_scaled ch;
          idx1 = lowerBound tms t;
          i1 = idx1; i0 = idx1 - 1;
          i2 = min (i1 + 1) (int (length (frames ch)) - 1);
          i_1 = max (i0 - 1) 0;
          t0 = rd tms i0; t1 = rd tms i1;
          u = (if t1 > t0 then rnd r (rnd r (t - t0) / rnd r (t1 - t0)) else Fin 0);
          last_i = int (length (frames ch)) - 1
      in case (row_or (frames ch) i_1 0, row_or (frames ch) i0 0,
               row_or (frames ch) i1 last_i, row_or (frames ch) i2 last_i) of
           (Some f_1, Some f0, Some f1, Some f2) \<Rightarrow>
             Inr (map (\<lambda>i. rnd s (clamp01 (catmullRom_fl r (rd f_1 (int i)) (rd f0 (int i))
                                      (rd f1 (int i)) (rd f2 (int i)) u))) [0..<COLS])
         | _ \<Rightarrow> Inl TypeError)"

section \<open>The operations of the scheduler\<close>

text \<open>\<^verbatim>\<open>(s || 'mp3').toLowerCase()\<close> on ASCII letters.\<close>

definition toLowerCase :: "string \<Rightarrow> string" where
  "toLowerCase s =
     map (\<lambda>c. let n = (of_char c :: nat) in if 65 \<le> n \<and> n \<le> 90 then char_of (n + 32) else c) s"

fun rows_of :: "'a list option \<Rightarrow> 'a list" where
  "rows_of None = []"
| "rows_of (Some xs) = xs"

text \<open>The chunk object that \<^verbatim>\<open>pushChunk\<close> builds before it queues it.\<close>

definition new_chunk :: "bool \<Rightarrow> audio_chunk_msg \<Rightarrow> chunk" where
  "new_chunk is_muted msg =
     (let fs = map (\<lambda>row. map (\<lambda>v. clamp01 (or_else v (Fin 0))) (take COLS (rows_of row)))
                 (rows_of (viseme msg));
          fmt = toLowerCase (case audio_format msg of
                               None \<Rightarrow> ''mp3''
                             | Some f \<Rightarrow> if f = [] then ''mp3'' else f)
      in \<lparr> frames = fs,
           timesRaw = buildTimes (length fs) msg,
           times_scaled = [],
           duration = Math_max (Fin 0.02) (or_else (Number (duration_ms msg)) (Fin 0) / Fin 1000),
           audioEl = (case audio msg of
                        None \<Rightarrow> None
                      | Some a \<Rightarrow>
                          if a \<noteq> [] \<and> \<not> is_muted
                          then Some \<lparr> src = ''data:audio/'' @ fmt @ '';base64,'' @ a,
                                      playing = False, listening = False \<rparr>
                          else None),
           startedAt = Fin 0,
           fadeInEnd = Fin 0,
           fadeInFrom = replicate COLS (Fin 0),
           done_flag = False \<rparr>)"

definition pushChunk :: "env \<Rightarrow> audio_chunk_msg \<Rightarrow> sched \<Rightarrow> sched" where
  "pushChunk e msg st =
     (let ch = new_chunk (muted st) msg
      in startNext e (st \<lparr> queue := queue st @ [ch], submitted := submitted st @ [ch] \<rparr>))"

text \<open>The parts of \<^verbatim>\<open>getFrame\<close>, in the order of its body. First the time step
  \<^verbatim>\<open>dt\<close>, the time since the last tick held between 1 ms and 33 ms.\<close>

definition tick_dt :: "env \<Rightarrow> sched \<Rightarrow> number" where
  "tick_dt e st = Math_max (Fin 0.001) (Math_min (Fin 0.033) (Fin (now e) - lastTick st))"

text \<open>The idle branch: \<^verbatim>\<open>pos[i] *= k; vel[i] *= k\<close> on every channel, and
  \<^verbatim>\<open>Array.from(pos)\<close> returned. \<^verbatim>\<open>pos\<close> and \<^verbatim>\<open>vel\<close> are \<^verbatim>\<open>new Float32Array(COLS)\<close>; a
  loop over their \<^verbatim>\<open>COLS\<close> channels is written as the list of the new channels.\<close>

definition relax :: "number \<Rightarrow> sched \<Rightarrow> number list option \<times> sched" where
  "relax dt st =
     (let k = Math_exp (- neutralDecayPerSec st * dt);
          pos1 = map (\<lambda>i. rd (pos st) (int i) * k) [0..<COLS];
          vel1 = map (\<lambda>i. rd (vel st) (int i) * k) [0..<COLS]
      in (Some pos1, st \<lparr> pos := pos1, vel := vel1 \<rparr>))"

text \<open>The position \<^verbatim>\<open>t\<close> in the active chunk: the element's \<^verbatim>\<open>currentTime\<close> when there is
  an element and it reports a number, else the time since the chunk started.\<close>

definition playback_time :: "env \<Rightarrow> chunk \<Rightarrow> number" where
  "playback_time e ch =
     (if audioEl ch \<noteq> None \<and> \<not> isNaN (el_currentTime e)
      then Math_max (Fin 0) (Math_min (el_currentTime e) (duration ch))
      else Math_min (Math_max (Fin 0) (Fin (now e) - startedAt ch)) (duration ch))"

text \<open>The crossfade from the pose shown when the chunk started.\<close>

definition crossfade :: "env \<Rightarrow> sched \<Rightarrow> chunk \<Rightarrow> number list \<Rightarrow> number list" where
  "crossfade e st ch tmp =
     (if Fin (now e) < fadeInEnd ch then
        (let cfk = Fin 1 - Math_max (Fin 0) ((fadeInEnd ch - Fin (now e)) / crossfadeS st)
         in map (\<lambda>i. lerp (rd (fadeInFrom ch) (int i)) (rd tmp (int i)) cfk) [0..<COLS])
      else tmp)"

text \<open>One step of the spring on channel \<open>i\<close>: the new \<^verbatim>\<open>vel[i]\<close> and \<^verbatim>\<open>pos[i]\<close>.\<close>

definition spring :: "sched \<Rightarrow> number \<Rightarrow> number list \<Rightarrow> nat \<Rightarrow> number \<times> number" where
  "spring st dt tmp i =
     (let f = (if i = 0 then freqJaw st else freqBase st);
          w = Fin 2 * Math_PI * f;
          acc = w * w * (rd tmp (int i) - rd (pos st) (int i))
                - Fin 2 * zeta st * w * rd (vel st) (int i);
          v = rd (vel st) (int i) + acc * dt;
          p = rd (pos st) (int i) + v * dt
      in (v, clamp01 (p * or_else (exaggeration st) (Fin 1))))"

text \<open>The spring loop over the channels, and \<^verbatim>\<open>Array.from(pos)\<close> returned.\<close>

definition muscle :: "number \<Rightarrow> number list \<Rightarrow> sched \<Rightarrow> number list option \<times> sched" where
  "muscle dt tmp st =
     (let vp = map (spring st dt tmp) [0..<COLS];
          pos1 = map snd vp
      in (Some pos1, st \<lparr> pos := pos1, vel := map fst vp \<rparr>))"

text \<open>\<^verbatim>\<open>getFrame\<close>: the value returned (\<^verbatim>\<open>number[] | null\<close>, \<open>None\<close> for \<^verbatim>\<open>null\<close>) and the
  new state, or the exception thrown.\<close>

definition getFrame :: "env \<Rightarrow> sched \<Rightarrow> error + (number list option \<times> sched)" where
  "getFrame e st =
     (let dt = tick_dt e st;
          st1 = st \<lparr> lastTick := Fin (now e) \<rparr>
      in case active st1 of
           None \<Rightarrow> Inr (relax dt st1)
         | Some ch \<Rightarrow>
             if frames ch = [] \<or> times_scaled ch = [] then Inr (relax dt st1)
             else
               (case sampleCatmullRom ch (playback_time e ch) of
                  Inl err \<Rightarrow> Inl err
                | Inr tmp \<Rightarrow> Inr (muscle dt (crossfade e st1 ch tmp) st1)))"

definition setMuted :: "bool \<Rightarrow> sched \<Rightarrow> sched" where
  "setMuted v st =
     (let st1 = st \<lparr> muted := v \<rparr>
      in if muted st1 then
           st1 \<lparr> active := map_option
                   (\<lambda>ch. ch \<lparr> audioEl := map_option (\<lambda>a. a \<lparr> playing := False \<rparr>) (audioEl ch) \<rparr>)
                   (active st1) \<rparr>
         else st1)"

text \<open>\<^verbatim>\<open>stop\<close> empties the queue, pauses the element of the active chunk and drops the
  chunk; the paused element is then no longer part of the state.\<close>

definition stop :: "sched \<Rightarrow> sched" where
  "stop st = st \<lparr> queue := [], active := None \<rparr>"

section \<open>Runs of the scheduler\<close>

text \<open>What can happen to a scheduler: a call of one of its four methods, or one of the
  callbacks it has registered. \<open>Completed\<close> is the \<^verbatim>\<open>onended\<close> handler or the fallback timer
  of some chunk, \<^verbatim>\<open>ch.done = true; active = null; startNext()\<close>; the handler does not look
  whether its chunk is still the active one, and \<^verbatim>\<open>done\<close> is read nowhere. \<open>MetaLoaded\<close> is
  the \<^verbatim>\<open>loadedmetadata\<close> listener of the active chunk; the listener of a chunk that is no
  longer active changes nothing of the state.\<close>

datatype event =
    PushChunk env audio_chunk_msg
  | GetFrame env
  | SetMuted bool
  | Stop
  | Completed env
  | MetaLoaded env

fun step :: "sched \<Rightarrow> event \<Rightarrow> sched" where
  "step st (PushChunk e msg) = pushChunk e msg st"
| "step st (GetFrame e) =
     (case getFrame e st of
        Inr (fr, st1) \<Rightarrow> st1
      | Inl err \<Rightarrow> st \<lparr> lastTick := Fin (now e) \<rparr>)"
| "step st (SetMuted v) = setMuted v st"
| "step st Stop = stop st"
| "step st (Completed e) = startNext e (st \<lparr> active := None \<rparr>)"
| "step st (MetaLoaded e) =
     (case active st of
        None \<Rightarrow> st
      | Some ch \<Rightarrow>
          (case audioEl ch of
             None \<Rightarrow> st
           | Some a \<Rightarrow> if listening a then st \<lparr> active := Some (onMeta e st ch) \<rparr> else st))"

fun run :: "sched \<Rightarrow> event list \<Rightarrow> sched" where
  "run st [] = st"
| "run st (ev # evs) = run (step st ev) evs"

inductive reachable :: "sched \<Rightarrow> bool" where
  reach_init: "reachable (createVisemeScheduler os now0)"
| reach_step: "reachable st \<Longrightarrow> reachable (step st ev)"

section \<open>Messages and chunks used as examples\<close>


text \<open>Two 15-channel rows whose explicit timestamps start at half a second.\<close>

definition msg_late_start :: audio_chunk_msg where
  "msg_late_start =
     \<lparr> audio = None, audio_format = None,
       viseme = Some (replicate 2 (Some (replicate 15 (Fin 0)))),
       viseme_times = Some [Fin 0.5, Fin 1], duration_ms = None, frame_ms = None,
       viseme_fps = None \<rparr>"


text \<open>One row of a single channel, \<^verbatim>\<open>{ viseme: [[0.5]] }\<close>.\<close>

definition msg_short_row :: audio_chunk_msg where
  "msg_short_row =
     \<lparr> audio = None, audio_format = None,
       viseme = Some [Some [Fin 0.5]],
       viseme_times = None, duration_ms = None, frame_ms = None,
       viseme_fps = None \<rparr>"

text \<open>The browser at time \<open>t\<close>, with no audio element to report on.\<close>

definition env_at :: "real \<Rightarrow> env" where
  "env_at t = \<lparr> now = t, el_duration = NaN, el_currentTime = NaN \<rparr>"

text \<open>A scheduler with the default options, after \<^verbatim>\<open>pushChunk({ viseme: [[0.5]] })\<close>.\<close>

definition sched_short_row :: sched where
  "sched_short_row = pushChunk (env_at 0) msg_short_row (createVisemeScheduler no_opts 0)"


text \<open>Scenario 1 of the specification: three 15-channel frames at 0 s, 0.5 s and 1 s, of
  which only the middle one opens channel 0, and a duration of one second; then the chunk
  once it has begun with that duration.\<close>

definition msg_scenario1 :: audio_chunk_msg where
  "msg_scenario1 =
     \<lparr> audio = None, audio_format = None,
       viseme = Some [Some (replicate 15 (Fin 0)),
                      Some (Fin 1 # replicate 14 (Fin 0)),
                      Some (replicate 15 (Fin 0))],
       viseme_times = Some [Fin 0, Fin 0.5, Fin 1], duration_ms = Some (Fin 1000),
       frame_ms = None, viseme_fps = None \<rparr>"

definition chunk_scenario1 :: chunk where
  "chunk_scenario1 =
     begin_chunk (env_at 0) (createVisemeScheduler no_opts 0) (Fin 1)
       (new_chunk False msg_scenario1)"


text \<open>A message whose second row has a single channel, and its chunk once it has begun
  with its duration of 20 ms.\<close>

definition msg_ragged :: audio_chunk_msg where
  "msg_ragged =
     \<lparr> audio = None, audio_format = None,
       viseme = Some [Some (replicate 15 (Fin 0.25)), Some [Fin 0.5]],
       viseme_times = Some [Fin 0, Fin 1], duration_ms = None,
       frame_ms = None, viseme_fps = None \<rparr>"

definition chunk_ragged :: chunk where
  "chunk_ragged =
     begin_chunk (env_at 0) (createVisemeScheduler no_opts 0) (Fin 0.02)
       (new_chunk False msg_ragged)"

text \<open>A rounding to ten binary places, as an example of a rounding.\<close>

definition fixed10 :: "real \<Rightarrow> real" where
  "fixed10 x = of_int (round (x * 1024)) / 1024"

section \<open>Predicates of the statements\<close>

text \<open>A channel value lies in \<open>[0,1]\<close>; false of \<^verbatim>\<open>NaN\<close>.\<close>

definition in01 :: "number \<Rightarrow> bool" where
  "in01 x = (Fin 0 \<le> x \<and> x \<le> Fin 1)"

text \<open>A row is a pose: \<open>COLS\<close> channels, each in \<open>[0,1]\<close>; and the frames of a chunk are
  poses, as the type \<^verbatim>\<open>Chunk\<close> documents them (\<^verbatim>\<open>[N][15]\<close>).\<close>

definition pose_row :: "number list \<Rightarrow> bool" where
  "pose_row row = (length row = COLS \<and> list_all in01 row)"

definition pose_rows :: "number list list \<Rightarrow> bool" where
  "pose_rows fs = list_all pose_row fs"



text \<open>A chunk and a scheduler state without \<^verbatim>\<open>NaN\<close>: the frames are poses, the time axes,
  the pose and the velocities are numbers, and the options are numbers with a positive
  crossfade window and a non-negative decay rate. A message has full rows when each of its
  rows has at least \<open>COLS\<close> elements.\<close>

definition good_chunk :: "chunk \<Rightarrow> bool" where
  "good_chunk ch =
     (pose_rows (frames ch) \<and> list_all isFinite (timesRaw ch)
      \<and> list_all isFinite (times_scaled ch) \<and> isFinite (duration ch)
      \<and> isFinite (startedAt ch) \<and> isFinite (fadeInEnd ch)
      \<and> length (fadeInFrom ch) = COLS \<and> list_all isFinite (fadeInFrom ch))"

definition good_sched :: "sched \<Rightarrow> bool" where
  "good_sched st =
     (isFinite (zeta st) \<and> isFinite (freqBase st) \<and> isFinite (freqJaw st)
      \<and> isFinite (exaggeration st) \<and> Fin 0 < crossfadeS st
      \<and> Fin 0 \<le> neutralDecayPerSec st \<and> isFinite (lastTick st)
      \<and> length (pos st) = COLS \<and> list_all in01 (pos st)
      \<and> length (vel st) = COLS \<and> list_all isFinite (vel st)
      \<and> list_all good_chunk (queue st)
      \<and> (case active st of None \<Rightarrow> True | Some ch \<Rightarrow> good_chunk ch))"

definition full_rows :: "audio_chunk_msg \<Rightarrow> bool" where
  "full_rows msg = list_all (\<lambda>row. COLS \<le> length (rows_of row)) (rows_of (viseme msg))"

fun good_event :: "event \<Rightarrow> bool" where
  "good_event (PushChunk e msg) = full_rows msg"
| "good_event ev = True"

text \<open>A rounding \<open>r\<close> is off by at most \<open>d\<close> on the numbers up to \<open>B\<close> in size; and a row is
  within \<open>e\<close> of another on every channel, both rows of the same length and without
  \<^verbatim>\<open>NaN\<close>.\<close>

definition rounds :: "(real \<Rightarrow> real) \<Rightarrow> real \<Rightarrow> real \<Rightarrow> bool" where
  "rounds r B d = (\<forall>x. \<bar>x\<bar> \<le> B \<longrightarrow> \<bar>r x - x\<bar> \<le> d)"

definition near_row :: "real \<Rightarrow> number list \<Rightarrow> number list \<Rightarrow> bool" where
  "near_row e out row =
     (length out = length row
      \<and> list_all (\<lambda>(x, y). case (x, y) of (Fin a, Fin b) \<Rightarrow> \<bar>a - b\<bar> \<le> e | _ \<Rightarrow> False)
           (zip out row))"

section \<open>Facts about numbers\<close>

lemma NaN_right [simp]:
  "x + NaN = NaN" "x - NaN = NaN" "x * NaN = NaN" "x / NaN = NaN"
  by (cases x; simp)+

lemma NaN_left [simp]:
  "NaN + x = NaN" "NaN - x = NaN" "NaN * x = NaN" "NaN / x = NaN"
  by simp_all

lemma or_else_zero_finite: "\<exists>r. or_else x (Fin 0) = Fin r"
  by (cases x) (auto simp: or_else_def)

lemma clamp01_in01: "x \<noteq> NaN \<Longrightarrow> in01 (clamp01 x)"
  by (cases x) (auto simp: clamp01_def in01_def)

lemma clamp01_NaN [simp]: "clamp01 NaN = NaN"
  by (simp add: clamp01_def)

lemma catmullRom_NaN [simp]: "catmullRom p0 NaN p2 p3 u = NaN"
  by (simp add: catmullRom_def Let_def)

lemma lerp_NaN [simp]: "lerp a NaN t = NaN"
  by (simp add: lerp_def)

lemma rd_map_upt: "i < n \<Longrightarrow> rd (map f [0..<n]) (int i) = f i"
  by (simp add: rd_def)

section \<open>The raw time axis\<close>



text \<open>Every axis that \<open>buildTimes\<close> makes is non-negative and never decreases.\<close>

lemma buildTimes_loop_from:
  "0 \<le> p \<Longrightarrow> list_all (\<lambda>t. Fin p \<le> t) (buildTimes_loop (Fin p) ts)
     \<and> sorted_wrt (\<le>) (buildTimes_loop (Fin p) ts)"
proof (induction ts arbitrary: p)
  case Nil
  then show ?case by simp
next
  case (Cons ti ts)
  define x where "x = (case ti of Fin a \<Rightarrow> a | NaN \<Rightarrow> p)"
  define q where "q = max p (max 0 x)"
  have unfold: "buildTimes_loop (Fin p) (ti # ts) = Fin q # buildTimes_loop (Fin q) ts"
    by (cases ti) (auto simp: x_def q_def Let_def max_def)
  have pq: "p \<le> q" and q0: "0 \<le> q" using Cons.prems by (auto simp: q_def)
  from Cons.IH [OF q0] have ih1: "list_all (\<lambda>t. Fin q \<le> t) (buildTimes_loop (Fin q) ts)"
    and ih2: "sorted_wrt (\<le>) (buildTimes_loop (Fin q) ts)" by auto
  have mono: "Fin p \<le> t" if "Fin q \<le> t" for t
    using that pq by (cases t) auto
  from ih1 have "list_all (\<lambda>t. Fin p \<le> t) (buildTimes_loop (Fin q) ts)"
    by (auto simp: list_all_iff intro: mono)
  moreover from ih1 have "\<forall>t\<in>set (buildTimes_loop (Fin q) ts). Fin q \<le> t"
    by (simp add: list_all_iff)
  ultimately show ?case
    unfolding unfold using pq ih2 by simp
qed

lemma even_steps:
  "0 \<le> d \<Longrightarrow> list_all (\<lambda>t. Fin 0 \<le> t) (map (\<lambda>i. Fin (real i) * Fin d) [0..<n])
     \<and> sorted_wrt (\<le>) (map (\<lambda>i. Fin (real i) * Fin d) [0..<n])"
  by (auto simp: list_all_iff sorted_wrt_iff_nth_less mult_right_mono)

lemma positive_hint_Some: "positive_hint h = Some x \<Longrightarrow> \<exists>r. x = Fin r \<and> 0 < r"
  by (cases h; cases x) (auto split: if_splits)

lemma buildTimes_nondecreasing:
  "list_all (\<lambda>t. Fin 0 \<le> t) (buildTimes n msg) \<and> sorted_wrt (\<le>) (buildTimes n msg)"
proof (cases "explicit_times (viseme_times msg)")
  case (Some ts)
  then show ?thesis using buildTimes_loop_from [of 0 "take n ts"] by (simp add: buildTimes_def)
next
  case None
  note ex = this
  show ?thesis
  proof (cases "positive_hint (frame_ms msg)")
    case (Some fms)
    then obtain r where "fms = Fin r" "0 < r" using positive_hint_Some by blast
    then show ?thesis using ex Some even_steps [of "r / 1000" n]
      by (simp add: buildTimes_def Let_def)
  next
    case None
    note fm = this
    show ?thesis
    proof (cases "positive_hint (viseme_fps msg)")
      case (Some fps)
      then obtain r where "fps = Fin r" "0 < r" using positive_hint_Some by blast
      then show ?thesis using ex fm Some even_steps [of "1 / r" n]
        by (simp add: buildTimes_def Let_def)
    next
      case None
      obtain ms where ms: "or_else (Number (duration_ms msg)) (Fin 0) = Fin ms"
        using or_else_zero_finite by blast
      show ?thesis
      proof (cases "n > 1")
        case True
        then show ?thesis
          using ex fm None ms even_steps [of "max 0.02 (ms / 1000) / real (n - 1)" n]
          by (simp add: buildTimes_def Let_def)
      next
        case False
        then show ?thesis using ex fm None ms even_steps [of "max 0.02 (ms / 1000)" n]
          by (simp add: buildTimes_def Let_def)
      qed
    qed
  qed
qed

text \<open>The three synthesized axes start at 0.\<close>

lemma hd_even_steps: "0 < n \<Longrightarrow> hd (map (\<lambda>i. Fin (real i) * Fin d) [0..<n]) = Fin 0"
  by (simp add: upt_conv_Cons)

lemma buildTimes_synthesized_start:
  assumes "explicit_times (viseme_times msg) = None" and "0 < n"
  shows "hd (buildTimes n msg) = Fin 0"
proof (cases "positive_hint (frame_ms msg)")
  case (Some fms)
  then obtain r where "fms = Fin r" "0 < r" using positive_hint_Some by blast
  then show ?thesis using assms Some hd_even_steps [of n "r / 1000"]
    by (simp add: buildTimes_def Let_def)
next
  case None
  note fm = this
  show ?thesis
  proof (cases "positive_hint (viseme_fps msg)")
    case (Some fps)
    then obtain r where "fps = Fin r" "0 < r" using positive_hint_Some by blast
    then show ?thesis using assms fm Some hd_even_steps [of n "1 / r"]
      by (simp add: buildTimes_def Let_def)
  next
    case None
    obtain ms where ms: "or_else (Number (duration_ms msg)) (Fin 0) = Fin ms"
      using or_else_zero_finite by blast
    show ?thesis
    proof (cases "n > 1")
      case True
      then show ?thesis
        using assms fm None ms hd_even_steps [of n "max 0.02 (ms / 1000) / real (n - 1)"]
        by (simp add: buildTimes_def Let_def)
    next
      case False
      then show ?thesis using assms fm None ms hd_even_steps [of n "max 0.02 (ms / 1000)"]
        by (simp add: buildTimes_def Let_def)
    qed
  qed
qed

text \<open>
  Claim C4, at the message \<open>msg_late_start\<close>: two frames with
  \<^verbatim>\<open>viseme_times = [0.5, 1.0]\<close>. The axis that \<open>buildTimes\<close> returns is \<open>[0.5, 1]\<close>: its
  entries are non-negative and do not decrease, but its first entry is 0.5 and not 0.
\<close>

theorem buildTimes_first_entry_not_zero:
  "buildTimes 2 msg_late_start = [Fin 0.5, Fin 1]
     \<and> rd (buildTimes 2 msg_late_start) 0 \<noteq> Fin 0"
  by (simp add: buildTimes_def msg_late_start_def rd_def)

section \<open>The chunk that \<open>pushChunk\<close> builds\<close>






text \<open>Of every row the first \<open>COLS\<close> elements are stored, each in \<open>[0,1]\<close>.\<close>

lemma new_chunk_frames_clamped:
  "list_all (\<lambda>row. list_all in01 row) (frames (new_chunk m msg))"
proof -
  have "in01 (clamp01 (or_else v (Fin 0)))" for v
    using or_else_zero_finite [of v] by (auto intro: clamp01_in01)
  then show ?thesis by (simp add: new_chunk_def Let_def list_all_iff)
qed

lemma new_chunk_row_lengths:
  "map length (frames (new_chunk m msg))
     = map (\<lambda>row. min (length (rows_of row)) COLS) (rows_of (viseme msg))"
  by (simp add: new_chunk_def Let_def)

text \<open>The chunk of \<open>msg_short_row\<close>, once \<open>pushChunk\<close> has started it.\<close>

lemma active_short_row:
  "active sched_short_row =
     Some \<lparr> frames = [[Fin 0.5]], timesRaw = [Fin 0], times_scaled = [Fin 0],
            duration = Fin 0.02, audioEl = None, startedAt = Fin 0, fadeInEnd = Fin 0.085,
            fadeInFrom = replicate 15 (Fin 0), done_flag = False \<rparr>"
  by (simp add: sched_short_row_def pushChunk_def startNext_def new_chunk_def begin_chunk_def
      createVisemeScheduler_def no_opts_def msg_short_row_def env_at_def audible_def rawTail_def
      buildTimes_def or_else_def rd_def clamp01_def COLS_def Let_def)

lemma sample_one_short_row:
  assumes "frames ch = [[x]]"
  shows "\<exists>tmp. sampleCatmullRom ch t = Inr tmp \<and> rd tmp 1 = NaN"
proof -
  let ?ts = "times_scaled ch"
  let ?lb = "lowerBound ?ts t"
  have row: "row_or [[x]] i 0 = Some [x]" for i
    by (simp add: row_or_def row_at_def)
  have "sampleCatmullRom ch t
          = Inr (map (\<lambda>i. clamp01 (catmullRom (rd [x] (int i)) (rd [x] (int i))
                                     (rd [x] (int i)) (rd [x] (int i))
                 (if rd ?ts ?lb > rd ?ts (?lb - 1)
                  then (t - rd ?ts (?lb - 1)) / (rd ?ts ?lb - rd ?ts (?lb - 1))
                  else Fin 0))) [0..<COLS])"
    by (simp add: sampleCatmullRom_def Let_def assms row)
  moreover have "rd [x] (int 1) = NaN" by (simp add: rd_def)
  ultimately show ?thesis
    using rd_map_upt [of 1 COLS] by (simp add: COLS_def)
qed

text \<open>
  Claim C3, at the message \<open>msg_short_row\<close>, \<^verbatim>\<open>{ viseme: [[0.5]] }\<close>. The row is stored
  with its one element, clamped, and not padded to \<open>COLS\<close> channels; channel 1 of the
  stored row reads \<^verbatim>\<open>undefined\<close>, and the pose sampled from the started chunk is
  \<^verbatim>\<open>NaN\<close> there, not 0.
\<close>

theorem new_chunk_short_row_not_padded:
  "frames (new_chunk False msg_short_row) = [[Fin 0.5]]
     \<and> length (hd (frames (new_chunk False msg_short_row))) \<noteq> COLS
     \<and> rd (hd (frames (new_chunk False msg_short_row))) 1 = NaN
     \<and> (\<exists>ch tmp. active sched_short_row = Some ch \<and> frames ch = [[Fin 0.5]]
           \<and> sampleCatmullRom ch (Fin 0.016) = Inr tmp \<and> rd tmp 1 = NaN
           \<and> rd tmp 1 \<noteq> Fin 0)"
proof -
  have stored: "frames (new_chunk False msg_short_row) = [[Fin 0.5]]"
    by (simp add: new_chunk_def msg_short_row_def Let_def COLS_def or_else_def clamp01_def)
  obtain ch where ch: "active sched_short_row = Some ch" "frames ch = [[Fin 0.5]]"
    using active_short_row by simp
  obtain tmp where "sampleCatmullRom ch (Fin 0.016) = Inr tmp" "rd tmp 1 = NaN"
    using sample_one_short_row [OF ch(2)] by blast
  with ch stored show ?thesis
    by (auto simp: COLS_def rd_def)
qed

section \<open>\<open>stop\<close> and \<open>getFrame\<close>\<close>

text \<open>
  Claim C9. \<open>stop\<close> empties the queue and leaves no chunk active; the filtered pose and
  the velocities are as before. The next \<open>getFrame\<close> takes the idle branch: it returns
  the pose of before the \<open>stop\<close>, every channel multiplied by the decay factor
  \<open>exp (- neutralDecayPerSec * dt)\<close>, and not the neutral pose.
\<close>

theorem stop_keeps_pose:
  "queue (stop st) = [] \<and> active (stop st) = None
     \<and> pos (stop st) = pos st \<and> vel (stop st) = vel st
     \<and> getFrame e (stop st) =
         Inr (Some (map (\<lambda>i. rd (pos st) (int i)
                          * Math_exp (- neutralDecayPerSec st * tick_dt e st)) [0..<COLS]),
              st \<lparr> queue := [], active := None, lastTick := Fin (now e),
                   pos := map (\<lambda>i. rd (pos st) (int i)
                          * Math_exp (- neutralDecayPerSec st * tick_dt e st)) [0..<COLS],
                   vel := map (\<lambda>i. rd (vel st) (int i)
                          * Math_exp (- neutralDecayPerSec st * tick_dt e st)) [0..<COLS] \<rparr>)"
  by (simp add: stop_def getFrame_def relax_def tick_dt_def Let_def)

text \<open>With at least one frame, each of the four control rows is found.\<close>

lemma row_or_first: "fs \<noteq> [] \<Longrightarrow> \<exists>r. row_or fs i 0 = Some r"
  by (cases fs) (simp_all add: row_or_def row_at_def split: option.splits)

lemma row_or_last: "fs \<noteq> [] \<Longrightarrow> \<exists>r. row_or fs i (int (length fs) - 1) = Some r"
  by (cases fs) (simp_all add: row_or_def row_at_def split: option.splits)

lemma four_rows:
  assumes "fs \<noteq> []"
  shows "\<exists>a b c d. row_or fs i 0 = Some a \<and> row_or fs j 0 = Some b
           \<and> row_or fs k (int (length fs) - 1) = Some c
           \<and> row_or fs l (int (length fs) - 1) = Some d"
  using row_or_first [OF assms] row_or_last [OF assms] by metis

text \<open>With at least one frame, \<open>sampleCatmullRom\<close> throws nothing.\<close>

lemma sampleCatmullRom_returns:
  assumes "frames ch \<noteq> []"
  shows "\<exists>tmp. sampleCatmullRom ch t = Inr tmp \<and> length tmp = COLS"
proof -
  let ?fs = "frames ch"
  let ?lb = "lowerBound (times_scaled ch) t"
  obtain a b c d where "row_or ?fs (max (?lb - 1 - 1) 0) 0 = Some a"
    "row_or ?fs (?lb - 1) 0 = Some b"
    "row_or ?fs ?lb (int (length ?fs) - 1) = Some c"
    "row_or ?fs (min (?lb + 1) (int (length ?fs) - 1)) (int (length ?fs) - 1) = Some d"
    using four_rows [OF assms] by metis
  then show ?thesis
    by (simp add: sampleCatmullRom_def Let_def)
qed

lemma relax_frame: "\<exists>fr st1. relax dt st = (Some fr, st1) \<and> length fr = COLS"
  by (simp add: relax_def Let_def)

lemma muscle_frame: "\<exists>fr st1. muscle dt tmp st = (Some fr, st1) \<and> length fr = COLS"
  by (simp add: muscle_def Let_def)

text \<open>
  Claim C10. In every state, idle or active, also with an active chunk of no frames or
  of an empty scaled time axis, \<open>getFrame\<close> throws nothing and returns an array, never
  \<^verbatim>\<open>null\<close>, of exactly 15 elements.
\<close>

theorem getFrame_returns_frame:
  "\<exists>fr st1. getFrame e st = Inr (Some fr, st1) \<and> length fr = 15"
proof (cases "active st")
  case None
  then show ?thesis using relax_frame by (simp add: getFrame_def Let_def COLS_def)
next
  case (Some ch)
  show ?thesis
  proof (cases "frames ch = [] \<or> times_scaled ch = []")
    case True
    then show ?thesis using Some relax_frame by (simp add: getFrame_def Let_def COLS_def)
  next
    case False
    then have ne: "frames ch \<noteq> []" by simp
    obtain tmp where tmp: "sampleCatmullRom ch (playback_time e ch) = Inr tmp"
      using sampleCatmullRom_returns [OF ne] by blast
    show ?thesis using Some False tmp muscle_frame
      by (simp add: getFrame_def Let_def COLS_def)
  qed
qed

text \<open>The spring hands \<^verbatim>\<open>NaN\<close> on.\<close>

lemma spring_NaN: "rd tmp (int i) = NaN \<Longrightarrow> snd (spring st dt tmp i) = NaN"
  by (simp add: spring_def Let_def)

text \<open>
  Claim C1, at the state \<open>sched_short_row\<close>: a scheduler with the default options after
  \<^verbatim>\<open>pushChunk({ viseme: [[0.5]] })\<close>. The state is reachable, and the frame that
  \<open>getFrame\<close> returns 16 ms later has \<^verbatim>\<open>NaN\<close> on channel 1, which is not in \<open>[0,1]\<close>:
  \<open>clamp01\<close> lets \<^verbatim>\<open>NaN\<close> through.
\<close>

theorem getFrame_short_row_NaN:
  "reachable sched_short_row
   \<and> (\<exists>fr st1. getFrame (env_at 0.016) sched_short_row = Inr (Some fr, st1)
         \<and> rd fr 1 = NaN \<and> \<not> list_all in01 fr)"
proof -
  let ?ch = "\<lparr> frames = [[Fin 0.5]], timesRaw = [Fin 0], times_scaled = [Fin 0],
            duration = Fin 0.02, audioEl = None, startedAt = Fin 0, fadeInEnd = Fin 0.085,
            fadeInFrom = replicate 15 (Fin 0), done_flag = False \<rparr>"
  let ?e = "env_at 0.016"
  let ?st1 = "sched_short_row \<lparr> lastTick := Fin (now ?e) \<rparr>"
  have r: "reachable sched_short_row"
    unfolding sched_short_row_def
    using reach_step [OF reach_init, of no_opts 0 "PushChunk (env_at 0) msg_short_row"] by simp
  obtain tmp where tmp: "sampleCatmullRom ?ch (playback_time ?e ?ch) = Inr tmp" "rd tmp 1 = NaN"
    using sample_one_short_row [of ?ch "Fin 0.5"] by auto
  have cf: "rd (crossfade ?e ?st1 ?ch tmp) 1 = NaN"
    using tmp(2) rd_map_upt [of 1 COLS] by (simp add: crossfade_def Let_def env_at_def COLS_def)
  define vp where
    "vp = map (spring ?st1 (tick_dt ?e sched_short_row) (crossfade ?e ?st1 ?ch tmp)) [0..<COLS]"
  define fr where "fr = map snd vp"
  have g: "getFrame ?e sched_short_row
             = Inr (Some fr, ?st1 \<lparr> pos := fr, vel := map fst vp \<rparr>)"
    using tmp(1) by (simp add: getFrame_def Let_def active_short_row muscle_def fr_def vp_def)
  have fr1: "rd fr 1 = NaN"
    using spring_NaN [of "crossfade ?e ?st1 ?ch tmp" 1] cf rd_map_upt [of 1 COLS]
    by (simp add: fr_def vp_def COLS_def)
  have len: "length fr = 15" by (simp add: fr_def vp_def COLS_def)
  with fr1 have "fr ! 1 = NaN" by (simp add: rd_def)
  moreover have "fr ! 1 \<in> set fr" using len by (intro nth_mem) simp
  ultimately have "NaN \<in> set fr" by simp
  moreover have "\<not> in01 NaN" by (simp add: in01_def)
  ultimately have "\<not> list_all in01 fr"
    unfolding list_all_iff by blast
  with r g fr1 show ?thesis by blast
qed

section \<open>Rescaling at activation\<close>

lemma rawTail_finite: "\<exists>r. rawTail ch = Fin r"
  using or_else_zero_finite by (simp add: rawTail_def)

lemma times_one [simp]: "t * Fin 1 = t"
  by (cases t) simp_all

lemma isFinite_times: "isFinite a \<Longrightarrow> isFinite b \<Longrightarrow> isFinite (a * b)"
  by (cases a; cases b) simp_all

text \<open>The duration that \<open>startNext\<close> and \<open>onMeta\<close> hand to \<open>begin_chunk\<close> is a number.\<close>

lemma begin_duration_finite:
  "isFinite (or_else (duration ch) (rawTail ch))"
  "isFinite (if isFinite (el_duration e) \<and> el_duration e > Fin 0 then el_duration e
             else or_else (or_else (duration ch) (rawTail ch)) (Fin 0.5))"
  using rawTail_finite [of ch]
  by (cases "duration ch"; auto simp: or_else_def)+

text \<open>Rescaling a raw axis of numbers gives an axis of numbers.\<close>

lemma rescale_finite:
  assumes "rawTail ch = Fin r"
  shows "list_all isFinite (timesRaw ch)
           \<longrightarrow> list_all isFinite (times_scaled (begin_chunk e st (Fin D) ch))"
proof (cases "0 < r")
  case True
  then have "times_scaled (begin_chunk e st (Fin D) ch)
               = map (\<lambda>t. t * Fin (D / r)) (timesRaw ch)"
    using assms by (simp add: begin_chunk_def Let_def)
  then show ?thesis by (simp add: list_all_iff isFinite_times)
next
  case False
  then have "times_scaled (begin_chunk e st (Fin D) ch) = timesRaw ch"
    using assms by (simp add: begin_chunk_def Let_def)
  then show ?thesis by simp
qed



section \<open>The order of activation\<close>


lemma startNext_noop: "active st \<noteq> None \<Longrightarrow> startNext e st = st"
  by (simp add: startNext_def)

lemma startNext_empty: "queue st = [] \<Longrightarrow> startNext e st = st"
  by (simp add: startNext_def)















section \<open>Sampling at a control point\<close>

text \<open>The spline at its ends, the binary search on a strictly increasing axis, and the
  sample of four poses at \<open>u = 0\<close> and at \<open>u = 1\<close>.\<close>

lemma in01_Fin: "in01 x \<Longrightarrow> \<exists>r. x = Fin r \<and> 0 \<le> r \<and> r \<le> 1"
  by (cases x) (simp_all add: in01_def)

lemma clamp01_id: "in01 x \<Longrightarrow> clamp01 x = x"
  by (cases x) (auto simp: in01_def clamp01_def)

lemma catmullRom_at_0:
  "catmullRom (Fin a) (Fin b) (Fin c) (Fin d) (Fin 0) = Fin b"
  by (simp add: catmullRom_def)

lemma catmullRom_at_1:
  "catmullRom (Fin a) (Fin b) (Fin c) (Fin d) (Fin 1) = Fin c"
  by (simp add: catmullRom_def)

lemma less_irrefl_number: "\<not> (x::number) < x"
  by (cases x) simp_all

lemma less_asym_number: "(x::number) < y \<Longrightarrow> \<not> y < x"
  by (cases x; cases y) simp_all

lemma lowerBound_loop_finds:
  assumes "sorted_wrt (<) arr" and "k < length arr"
  shows "0 \<le> lo \<Longrightarrow> lo \<le> int k \<Longrightarrow> int k \<le> hi + 1 \<Longrightarrow> hi < int (length arr)
           \<Longrightarrow> lowerBound_loop arr (arr ! k) lo hi = int k"
proof (induction "nat (hi - lo + 1)" arbitrary: lo hi rule: less_induct)
  case less
  show ?case
  proof (cases "lo \<le> hi")
    case False
    with less.prems have "lo = int k" by simp
    with False show ?thesis by (simp add: lowerBound_loop.simps)
  next
    case True
    define mid where "mid = (lo + hi) div 2"
    have mid: "lo \<le> mid" "mid \<le> hi" using True by (simp_all add: mid_def)
    then have inr: "0 \<le> mid" "mid < int (length arr)" using less.prems by simp_all
    then have rdm: "rd arr mid = arr ! nat mid" by (simp add: rd_def)
    have iff: "rd arr mid < arr ! k \<longleftrightarrow> mid < int k"
    proof
      assume lt: "rd arr mid < arr ! k"
      show "mid < int k"
      proof (rule ccontr)
        assume "\<not> mid < int k"
        then have "k \<le> nat mid" using inr by simp
        then consider "k = nat mid" | "k < nat mid" by linarith
        then show False
        proof cases
          case 1
          with lt rdm show False by (simp add: less_irrefl_number)
        next
          case 2
          then have "arr ! k < arr ! nat mid"
            using assms(1) inr by (simp add: sorted_wrt_iff_nth_less)
          with lt rdm show False by (simp add: less_asym_number)
        qed
      qed
    next
      assume "mid < int k"
      then have "nat mid < k" using inr by simp
      then show "rd arr mid < arr ! k"
        using assms(1,2) rdm by (simp add: sorted_wrt_iff_nth_less)
    qed
    show ?thesis
    proof (cases "rd arr mid < arr ! k")
      case lt: True
      then have "mid + 1 \<le> int k" using iff by simp
      moreover have "0 \<le> mid + 1" using inr by simp
      moreover have "nat (hi - (mid + 1) + 1) < nat (hi - lo + 1)" using mid by simp
      ultimately have "lowerBound_loop arr (arr ! k) (mid + 1) hi = int k"
        using less.hyps less.prems by simp
      then show ?thesis
        using True lt by (subst lowerBound_loop.simps) (simp add: mid_def Let_def)
    next
      case ge: False
      then have "int k \<le> (mid - 1) + 1" using iff by simp
      moreover have "mid - 1 < int (length arr)" using inr by simp
      moreover have "nat ((mid - 1) - lo + 1) < nat (hi - lo + 1)" using mid by simp
      ultimately have "lowerBound_loop arr (arr ! k) lo (mid - 1) = int k"
        using less.hyps less.prems by simp
      then show ?thesis
        using True ge by (subst lowerBound_loop.simps) (simp add: mid_def Let_def)
    qed
  qed
qed

lemma lowerBound_at_sample:
  assumes "sorted_wrt (<) arr" and "k < length arr"
  shows "lowerBound arr (arr ! k) = max 1 (int k)"
proof -
  have "lowerBound_loop arr (arr ! k) 0 (int (length arr) - 1) = int k"
    using lowerBound_loop_finds [OF assms, of 0 "int (length arr) - 1"] assms(2) by simp
  then show ?thesis using assms(2) by (simp add: lowerBound_def)
qed

lemma pose_row_rd:
  assumes "pose_row r" and "i < COLS"
  shows "\<exists>x. rd r (int i) = Fin x \<and> 0 \<le> x \<and> x \<le> 1"
proof -
  have "rd r (int i) = r ! i" using assms by (simp add: rd_def pose_row_def)
  moreover have "in01 (r ! i)" using assms by (simp add: pose_row_def list_all_length)
  ultimately show ?thesis using in01_Fin by simp
qed

lemma pose_row_map: "pose_row r \<Longrightarrow> map (\<lambda>i. rd r (int i)) [0..<COLS] = r"
  by (auto simp: pose_row_def rd_def intro: nth_equalityI)

lemma sample_at_0:
  assumes "pose_row a" "pose_row b" "pose_row c" "pose_row d"
  shows "map (\<lambda>i. clamp01 (catmullRom (rd a (int i)) (rd b (int i)) (rd c (int i))
                              (rd d (int i)) (Fin 0))) [0..<COLS] = b"
proof -
  have "clamp01 (catmullRom (rd a (int i)) (rd b (int i)) (rd c (int i)) (rd d (int i)) (Fin 0))
          = rd b (int i)" if lt: "i < COLS" for i
  proof -
    obtain w x y z where "rd a (int i) = Fin w" "rd b (int i) = Fin x" "0 \<le> x" "x \<le> 1"
      "rd c (int i) = Fin y" "rd d (int i) = Fin z"
      using pose_row_rd [OF assms(1) lt] pose_row_rd [OF assms(2) lt]
        pose_row_rd [OF assms(3) lt] pose_row_rd [OF assms(4) lt] by blast
    then show ?thesis by (simp add: catmullRom_at_0 clamp01_def)
  qed
  then have "map (\<lambda>i. clamp01 (catmullRom (rd a (int i)) (rd b (int i)) (rd c (int i))
                              (rd d (int i)) (Fin 0))) [0..<COLS]
             = map (\<lambda>i. rd b (int i)) [0..<COLS]"
    by simp
  then show ?thesis using pose_row_map [OF assms(2)] by simp
qed

lemma sample_at_1:
  assumes "pose_row a" "pose_row b" "pose_row c" "pose_row d"
  shows "map (\<lambda>i. clamp01 (catmullRom (rd a (int i)) (rd b (int i)) (rd c (int i))
                              (rd d (int i)) (Fin 1))) [0..<COLS] = c"
proof -
  have "clamp01 (catmullRom (rd a (int i)) (rd b (int i)) (rd c (int i)) (rd d (int i)) (Fin 1))
          = rd c (int i)" if lt: "i < COLS" for i
  proof -
    obtain w x y z where "rd a (int i) = Fin w" "rd b (int i) = Fin x"
      "rd c (int i) = Fin y" "0 \<le> y" "y \<le> 1" "rd d (int i) = Fin z"
      using pose_row_rd [OF assms(1) lt] pose_row_rd [OF assms(2) lt]
        pose_row_rd [OF assms(3) lt] pose_row_rd [OF assms(4) lt] by blast
    then show ?thesis by (simp add: catmullRom_at_1 clamp01_def)
  qed
  then have "map (\<lambda>i. clamp01 (catmullRom (rd a (int i)) (rd b (int i)) (rd c (int i))
                              (rd d (int i)) (Fin 1))) [0..<COLS]
             = map (\<lambda>i. rd c (int i)) [0..<COLS]"
    by simp
  then show ?thesis using pose_row_map [OF assms(3)] by simp
qed

lemma row_or_in_set: "row_or fs i j = Some r \<Longrightarrow> r \<in> set fs"
  by (auto simp: row_or_def row_at_def split: option.splits if_splits)

lemma row_or_at: "0 \<le> i \<Longrightarrow> i < int (length fs) \<Longrightarrow> row_or fs i j = Some (fs ! nat i)"
  by (simp add: row_or_def row_at_def)

lemma u_at_left: "(if t1 > t then (t - t) / (t1 - t) else Fin 0) = Fin 0"
  by (cases t; cases t1) auto

lemma u_at_right: "t0 < t \<Longrightarrow> (t - t0) / (t - t0) = Fin 1"
  by (cases t; cases t0) auto

text \<open>In exact arithmetic: for a chunk whose frames are poses and whose scaled time axis is
  strictly increasing, the sample at the time of control point \<open>k\<close> is frame \<open>k\<close>.\<close>

lemma sample_exact_at_sample:
  assumes "pose_rows (frames ch)" and "sorted_wrt (<) (times_scaled ch)"
    and "k < length (times_scaled ch)" and "k < length (frames ch)"
  shows "sampleCatmullRom ch (times_scaled ch ! k) = Inr (frames ch ! k)"
proof -
  let ?fs = "frames ch"
  let ?ts = "times_scaled ch"
  let ?t = "?ts ! k"
  let ?last = "int (length ?fs) - 1"
  have ne: "?fs \<noteq> []" using assms(4) by auto
  have pose: "pose_row r" if "r \<in> set ?fs" for r
    using assms(1) that by (simp add: pose_rows_def pose_row_def list_all_iff)
  have lb: "lowerBound ?ts ?t = max 1 (int k)"
    using lowerBound_at_sample [OF assms(2,3)] .
  define i1 where "i1 = max 1 (int k)"
  obtain a b c d where rows: "row_or ?fs (max (i1 - 1 - 1) 0) 0 = Some a"
    "row_or ?fs (i1 - 1) 0 = Some b"
    "row_or ?fs i1 ?last = Some c"
    "row_or ?fs (min (i1 + 1) ?last) ?last = Some d"
    using four_rows [OF ne] by metis
  have pr: "pose_row a" "pose_row b" "pose_row c" "pose_row d"
    using rows by (auto intro: pose dest: row_or_in_set)
  define u where "u = (if rd ?ts i1 > rd ?ts (i1 - 1)
                       then (?t - rd ?ts (i1 - 1)) / (rd ?ts i1 - rd ?ts (i1 - 1)) else Fin 0)"
  have unfolded: "sampleCatmullRom ch ?t
          = Inr (map (\<lambda>i. clamp01 (catmullRom (rd a (int i)) (rd b (int i)) (rd c (int i))
                              (rd d (int i)) u)) [0..<COLS])"
    unfolding sampleCatmullRom_def Let_def lb i1_def [symmetric] u_def [symmetric]
    using rows by simp
  show ?thesis
  proof (cases "k = 0")
    case True
    then have i1: "i1 = 1" by (simp add: i1_def)
    have t0: "rd ?ts (i1 - 1) = ?t" using True assms(3) i1 by (simp add: rd_def)
    have "u = Fin 0" unfolding u_def t0 by (rule u_at_left)
    moreover have "b = ?fs ! k"
      using rows(2) True i1 ne row_or_at [of 0 ?fs 0] by simp
    ultimately show ?thesis using unfolded sample_at_0 [OF pr] by simp
  next
    case False
    then have i1: "i1 = int k" by (simp add: i1_def)
    have t1: "rd ?ts i1 = ?t" using assms(3) i1 by (simp add: rd_def)
    have "rd ?ts (i1 - 1) = ?ts ! (k - 1)"
      using False assms(3) i1 by (simp add: rd_def nat_diff_distrib')
    moreover have "?ts ! (k - 1) < ?ts ! k"
      using False assms(2,3) by (simp add: sorted_wrt_iff_nth_less)
    ultimately have lt: "rd ?ts (i1 - 1) < ?t" by simp
    have "u = Fin 1" unfolding u_def t1 using lt u_at_right by simp
    moreover have "c = ?fs ! k"
      using rows(3) i1 assms(4) row_or_at [of "int k" ?fs ?last] by simp
    ultimately show ?thesis using unfolded sample_at_1 [OF pr] by simp
  qed
qed

text \<open>Scenario 1: the frames and the scaled axis of the chunk, which is the chunk that
  \<open>pushChunk\<close> makes active on a new scheduler.\<close>

lemma scenario1_frames:
  "frames chunk_scenario1 = [replicate 15 (Fin 0), Fin 1 # replicate 14 (Fin 0), replicate 15 (Fin 0)]"
  by (simp add: chunk_scenario1_def begin_chunk_def new_chunk_def msg_scenario1_def Let_def
      COLS_def or_else_def clamp01_def)

lemma scenario1_times:
  "times_scaled chunk_scenario1 = [Fin 0, Fin 0.5, Fin 1]"
  by (simp add: chunk_scenario1_def begin_chunk_def new_chunk_def msg_scenario1_def Let_def
      COLS_def or_else_def buildTimes_def rawTail_def rd_def)

lemma scenario1_active:
  "active (pushChunk (env_at 0) msg_scenario1 (createVisemeScheduler no_opts 0)) = Some chunk_scenario1"
  by (simp add: chunk_scenario1_def pushChunk_def startNext_def Let_def audible_def
      createVisemeScheduler_def new_chunk_def msg_scenario1_def or_else_def begin_chunk_def)

text \<open>With rounding: the error of the spline at \<open>u = 1\<close> and at \<open>u = 0\<close>, operation by
  operation, for controls in \<open>[0,1]\<close>.\<close>

lemma rnd_id [simp]: "rnd (\<lambda>x. x) v = v"
  by (cases v) simp_all

lemma catmullRom_fl_id: "catmullRom_fl (\<lambda>x. x) p0 p1 p2 p3 t = catmullRom p0 p1 p2 p3 t"
  by (simp add: catmullRom_fl_def catmullRom_def Let_def)

lemma sampleCatmullRom_fl_id: "sampleCatmullRom_fl (\<lambda>x. x) (\<lambda>x. x) ch t = sampleCatmullRom ch t"
  by (simp add: sampleCatmullRom_fl_def sampleCatmullRom_def catmullRom_fl_id Let_def
      split: option.splits)

lemma rstep:
  assumes "rounds r 8 d" and "y - e \<le> y'" and "y' \<le> y + e" and "- M \<le> y" and "y \<le> M"
    and "M + e \<le> 8"
  shows "y - (e + d) \<le> r y' \<and> r y' \<le> y + (e + d)"
proof -
  have "\<bar>y'\<bar> \<le> 8" using assms(2-6) by linarith
  then have "\<bar>r y' - y'\<bar> \<le> d" using assms(1) by (simp add: rounds_def)
  then show ?thesis using assms(2,3) by linarith
qed

lemma catmullRom_fl_at_1:
  assumes rd: "rounds r 8 d" and d: "d \<le> 1/20" and r1: "r 1 = 1"
    and p: "0 \<le> p0" "p0 \<le> 1" "0 \<le> p1" "p1 \<le> 1" "0 \<le> p2" "p2 \<le> 1" "0 \<le> p3" "p3 \<le> 1"
  shows "\<exists>a. catmullRom_fl r (Fin p0) (Fin p1) (Fin p2) (Fin p3) (Fin 1) = Fin a
           \<and> \<bar>a - p2\<bar> \<le> 11 * d"
proof -
  have d0: "0 \<le> d" using rd [unfolded rounds_def, rule_format, of 0] by simp
  define A where "A = r (2 * p1)"
  define b where "b = r (- p0 + p2)"
  define B where "B = r b"
  define m2 where "m2 = r (2 * p0)"
  define m5 where "m5 = r (5 * p1)"
  define m4 where "m4 = r (4 * p2)"
  define c1 where "c1 = r (m2 - m5)"
  define c2 where "c2 = r (c1 + m4)"
  define c3 where "c3 = r (c2 - p3)"
  define C where "C = r c3"
  define m3 where "m3 = r (3 * p1)"
  define n3 where "n3 = r (3 * p2)"
  define d1 where "d1 = r (- p0 + m3)"
  define d2 where "d2 = r (d1 - n3)"
  define d3 where "d3 = r (d2 + p3)"
  define D where "D = r d3"
  define s1 where "s1 = r (A + B)"
  define s2 where "s2 = r (s1 + C)"
  define s3 where "s3 = r (s2 + D)"
  define res where "res = r (0.5 * s3)"
  have eq: "catmullRom_fl r (Fin p0) (Fin p1) (Fin p2) (Fin p3) (Fin 1) = Fin res"
    by (simp add: catmullRom_fl_def Let_def r1 res_def s3_def s2_def s1_def D_def d3_def d2_def
        d1_def n3_def m3_def C_def c3_def c2_def c1_def m4_def m5_def m2_def B_def b_def A_def)
  have A: "2 * p1 - d \<le> A \<and> A \<le> 2 * p1 + d"
    unfolding A_def using rstep [OF rd, of "2 * p1" 0 "2 * p1" 2] p d0 by simp
  have b: "(p2 - p0) - d \<le> b \<and> b \<le> (p2 - p0) + d"
    unfolding b_def using rstep [OF rd, of "p2 - p0" 0 "- p0 + p2" 1] p d0 by simp
  have B: "(p2 - p0) - 2 * d \<le> B \<and> B \<le> (p2 - p0) + 2 * d"
    unfolding B_def using rstep [OF rd, of "p2 - p0" d b 1] b p d by simp
  have m2: "2 * p0 - d \<le> m2 \<and> m2 \<le> 2 * p0 + d"
    unfolding m2_def using rstep [OF rd, of "2 * p0" 0 "2 * p0" 2] p d0 by simp
  have m5: "5 * p1 - d \<le> m5 \<and> m5 \<le> 5 * p1 + d"
    unfolding m5_def using rstep [OF rd, of "5 * p1" 0 "5 * p1" 5] p d0 by simp
  have m4: "4 * p2 - d \<le> m4 \<and> m4 \<le> 4 * p2 + d"
    unfolding m4_def using rstep [OF rd, of "4 * p2" 0 "4 * p2" 4] p d0 by simp
  have m3: "3 * p1 - d \<le> m3 \<and> m3 \<le> 3 * p1 + d"
    unfolding m3_def using rstep [OF rd, of "3 * p1" 0 "3 * p1" 3] p d0 by simp
  have n3: "3 * p2 - d \<le> n3 \<and> n3 \<le> 3 * p2 + d"
    unfolding n3_def using rstep [OF rd, of "3 * p2" 0 "3 * p2" 3] p d0 by simp
  have c1: "(2 * p0 - 5 * p1) - 3 * d \<le> c1 \<and> c1 \<le> (2 * p0 - 5 * p1) + 3 * d"
    unfolding c1_def using rstep [OF rd, of "2 * p0 - 5 * p1" "2 * d" "m2 - m5" 5] m2 m5 p d
    by simp
  have c2: "(2 * p0 - 5 * p1 + 4 * p2) - 5 * d \<le> c2 \<and> c2 \<le> (2 * p0 - 5 * p1 + 4 * p2) + 5 * d"
    unfolding c2_def
    using rstep [OF rd, of "2 * p0 - 5 * p1 + 4 * p2" "4 * d" "c1 + m4" 6] c1 m4 p d by simp
  have c3: "(2 * p0 - 5 * p1 + 4 * p2 - p3) - 6 * d \<le> c3
            \<and> c3 \<le> (2 * p0 - 5 * p1 + 4 * p2 - p3) + 6 * d"
    unfolding c3_def
    using rstep [OF rd, of "2 * p0 - 5 * p1 + 4 * p2 - p3" "5 * d" "c2 - p3" 6] c2 p d by simp
  have C: "(2 * p0 - 5 * p1 + 4 * p2 - p3) - 7 * d \<le> C
            \<and> C \<le> (2 * p0 - 5 * p1 + 4 * p2 - p3) + 7 * d"
    unfolding C_def
    using rstep [OF rd, of "2 * p0 - 5 * p1 + 4 * p2 - p3" "6 * d" c3 6] c3 p d by simp
  have d1: "(- p0 + 3 * p1) - 2 * d \<le> d1 \<and> d1 \<le> (- p0 + 3 * p1) + 2 * d"
    unfolding d1_def using rstep [OF rd, of "- p0 + 3 * p1" d "- p0 + m3" 3] m3 p d by simp
  have d2: "(- p0 + 3 * p1 - 3 * p2) - 4 * d \<le> d2 \<and> d2 \<le> (- p0 + 3 * p1 - 3 * p2) + 4 * d"
    unfolding d2_def
    using rstep [OF rd, of "- p0 + 3 * p1 - 3 * p2" "3 * d" "d1 - n3" 4] d1 n3 p d by simp
  have d3: "(- p0 + 3 * p1 - 3 * p2 + p3) - 5 * d \<le> d3
            \<and> d3 \<le> (- p0 + 3 * p1 - 3 * p2 + p3) + 5 * d"
    unfolding d3_def
    using rstep [OF rd, of "- p0 + 3 * p1 - 3 * p2 + p3" "4 * d" "d2 + p3" 4] d2 p d by simp
  have D: "(- p0 + 3 * p1 - 3 * p2 + p3) - 6 * d \<le> D
            \<and> D \<le> (- p0 + 3 * p1 - 3 * p2 + p3) + 6 * d"
    unfolding D_def
    using rstep [OF rd, of "- p0 + 3 * p1 - 3 * p2 + p3" "5 * d" d3 4] d3 p d by simp
  have s1: "(2 * p1 + p2 - p0) - 4 * d \<le> s1 \<and> s1 \<le> (2 * p1 + p2 - p0) + 4 * d"
    unfolding s1_def
    using rstep [OF rd, of "2 * p1 + p2 - p0" "3 * d" "A + B" 3] A B p d by simp
  have s2: "(p0 - 3 * p1 + 5 * p2 - p3) - 12 * d \<le> s2 \<and> s2 \<le> (p0 - 3 * p1 + 5 * p2 - p3) + 12 * d"
    unfolding s2_def
    using rstep [OF rd, of "p0 - 3 * p1 + 5 * p2 - p3" "11 * d" "s1 + C" 6] s1 C p d by simp
  have s3: "2 * p2 - 19 * d \<le> s3 \<and> s3 \<le> 2 * p2 + 19 * d"
    unfolding s3_def
    using rstep [OF rd, of "2 * p2" "18 * d" "s2 + D" 2] s2 D p d by simp
  have res: "p2 - 11 * d \<le> res \<and> res \<le> p2 + 11 * d"
    unfolding res_def
    using rstep [OF rd, of p2 "10 * d" "0.5 * s3" 1] s3 p d by simp
  then have "\<bar>res - p2\<bar> \<le> 11 * d" by linarith
  with eq show ?thesis by blast
qed

lemma catmullRom_fl_at_0:
  assumes rd: "rounds r 8 d" and d: "d \<le> 1/20" and r0: "r 0 = 0"
    and p: "0 \<le> p1" "p1 \<le> 1"
  shows "\<exists>a. catmullRom_fl r (Fin p0) (Fin p1) (Fin p2) (Fin p3) (Fin 0) = Fin a
           \<and> \<bar>a - p1\<bar> \<le> 11 * d"
proof -
  have d0: "0 \<le> d" using rd [unfolded rounds_def, rule_format, of 0] by simp
  define A where "A = r (2 * p1)"
  define s1 where "s1 = r A"
  define s2 where "s2 = r s1"
  define s3 where "s3 = r s2"
  define res where "res = r (0.5 * s3)"
  have eq: "catmullRom_fl r (Fin p0) (Fin p1) (Fin p2) (Fin p3) (Fin 0) = Fin res"
    by (simp add: catmullRom_fl_def Let_def r0 res_def s3_def s2_def s1_def A_def)
  have A: "2 * p1 - d \<le> A \<and> A \<le> 2 * p1 + d"
    unfolding A_def using rstep [OF rd, of "2 * p1" 0 "2 * p1" 2] p d0 by simp
  have s1: "2 * p1 - 2 * d \<le> s1 \<and> s1 \<le> 2 * p1 + 2 * d"
    unfolding s1_def using rstep [OF rd, of "2 * p1" d A 2] A p d by simp
  have s2: "2 * p1 - 3 * d \<le> s2 \<and> s2 \<le> 2 * p1 + 3 * d"
    unfolding s2_def using rstep [OF rd, of "2 * p1" "2 * d" s1 2] s1 p d by simp
  have s3: "2 * p1 - 4 * d \<le> s3 \<and> s3 \<le> 2 * p1 + 4 * d"
    unfolding s3_def using rstep [OF rd, of "2 * p1" "3 * d" s2 2] s2 p d by simp
  have res: "p1 - 3 * d \<le> res \<and> res \<le> p1 + 3 * d"
    unfolding res_def using rstep [OF rd, of p1 "2 * d" "0.5 * s3" 1] s3 p d by simp
  then have "\<bar>res - p1\<bar> \<le> 11 * d" using d0 by linarith
  with eq show ?thesis by blast
qed

text \<open>Clamping into \<open>[0,1]\<close> brings a value no further from a value of \<open>[0,1]\<close>; the
  float32 store then adds its own error.\<close>

lemma store_clamped:
  assumes "rounds s 1 d32" and "0 \<le> p" and "p \<le> 1" and "\<bar>a - p\<bar> \<le> e"
  shows "\<exists>c. rnd s (clamp01 (Fin a)) = Fin c \<and> \<bar>c - p\<bar> \<le> e + d32"
proof -
  define v where "v = (if a < 0 then 0 else if a > 1 then 1 else a)"
  have cl: "clamp01 (Fin a) = Fin v" by (simp add: clamp01_def v_def)
  have v01: "\<bar>v\<bar> \<le> 1" and near: "\<bar>v - p\<bar> \<le> e"
    using assms(2-4) by (auto simp: v_def)
  have "\<bar>s v - v\<bar> \<le> d32" using assms(1) v01 by (simp add: rounds_def)
  then have "\<bar>s v - p\<bar> \<le> e + d32" using near by linarith
  then show ?thesis by (simp add: cl)
qed

lemma near_rowI:
  assumes "length row = COLS"
    and "\<And>i. i < COLS \<Longrightarrow> \<exists>a b. f i = Fin a \<and> row ! i = Fin b \<and> \<bar>a - b\<bar> \<le> e"
  shows "near_row e (map f [0..<COLS]) row"
proof -
  have "case (map f [0..<COLS] ! i, row ! i) of (Fin a, Fin b) \<Rightarrow> \<bar>a - b\<bar> \<le> e | _ \<Rightarrow> False"
    if "i < COLS" for i
    using assms(2) [OF that] that by auto
  then show ?thesis
    using assms(1) by (auto simp: near_row_def list_all_length)
qed

lemma pose_row_nth:
  assumes "pose_row r" and "i < COLS"
  shows "\<exists>x. rd r (int i) = Fin x \<and> r ! i = Fin x \<and> 0 \<le> x \<and> x \<le> 1"
proof -
  have "rd r (int i) = r ! i" using assms by (simp add: rd_def pose_row_def)
  then show ?thesis using pose_row_rd [OF assms] by auto
qed

lemma sample_fl_at_1:
  assumes rd: "rounds r 8 d" "d \<le> 1/20" "r 1 = 1" and st: "rounds s 1 d32"
    and pr: "pose_row a" "pose_row b" "pose_row c" "pose_row e"
  shows "near_row (11 * d + d32)
           (map (\<lambda>i. rnd s (clamp01 (catmullRom_fl r (rd a (int i)) (rd b (int i))
                                       (rd c (int i)) (rd e (int i)) (Fin 1)))) [0..<COLS]) c"
proof (rule near_rowI)
  show "length c = COLS" using pr(3) by (simp add: pose_row_def)
next
  fix i assume lt: "i < COLS"
  obtain w x y z where v: "rd a (int i) = Fin w" "0 \<le> w" "w \<le> 1"
    "rd b (int i) = Fin x" "0 \<le> x" "x \<le> 1"
    "rd c (int i) = Fin y" "c ! i = Fin y" "0 \<le> y" "y \<le> 1"
    "rd e (int i) = Fin z" "0 \<le> z" "z \<le> 1"
    using pose_row_nth [OF pr(1) lt] pose_row_nth [OF pr(2) lt]
      pose_row_nth [OF pr(3) lt] pose_row_nth [OF pr(4) lt] by blast
  obtain q where q: "catmullRom_fl r (Fin w) (Fin x) (Fin y) (Fin z) (Fin 1) = Fin q"
    "\<bar>q - y\<bar> \<le> 11 * d"
    using catmullRom_fl_at_1 [OF rd, of w x y z] v by blast
  obtain v1 where "rnd s (clamp01 (Fin q)) = Fin v1" "\<bar>v1 - y\<bar> \<le> 11 * d + d32"
    using store_clamped [OF st, of y q "11 * d"] v q(2) by blast
  then show "\<exists>v1 b'. rnd s (clamp01 (catmullRom_fl r (rd a (int i)) (rd b (int i))
                        (rd c (int i)) (rd e (int i)) (Fin 1))) = Fin v1
               \<and> c ! i = Fin b' \<and> \<bar>v1 - b'\<bar> \<le> 11 * d + d32"
    using v q(1) by simp
qed

lemma sample_fl_at_0:
  assumes rd: "rounds r 8 d" "d \<le> 1/20" "r 0 = 0" and st: "rounds s 1 d32"
    and pr: "pose_row a" "pose_row b" "pose_row c" "pose_row e"
  shows "near_row (11 * d + d32)
           (map (\<lambda>i. rnd s (clamp01 (catmullRom_fl r (rd a (int i)) (rd b (int i))
                                       (rd c (int i)) (rd e (int i)) (Fin 0)))) [0..<COLS]) b"
proof (rule near_rowI)
  show "length b = COLS" using pr(2) by (simp add: pose_row_def)
next
  fix i assume lt: "i < COLS"
  obtain w x y z where v: "rd a (int i) = Fin w"
    "rd b (int i) = Fin x" "b ! i = Fin x" "0 \<le> x" "x \<le> 1"
    "rd c (int i) = Fin y" "rd e (int i) = Fin z"
    using pose_row_nth [OF pr(1) lt] pose_row_nth [OF pr(2) lt]
      pose_row_nth [OF pr(3) lt] pose_row_nth [OF pr(4) lt] by blast
  obtain q where q: "catmullRom_fl r (Fin w) (Fin x) (Fin y) (Fin z) (Fin 0) = Fin q"
    "\<bar>q - x\<bar> \<le> 11 * d"
    using catmullRom_fl_at_0 [OF rd, of x w y z] v by blast
  obtain v1 where "rnd s (clamp01 (Fin q)) = Fin v1" "\<bar>v1 - x\<bar> \<le> 11 * d + d32"
    using store_clamped [OF st, of x q "11 * d"] v q(2) by blast
  then show "\<exists>v1 b'. rnd s (clamp01 (catmullRom_fl r (rd a (int i)) (rd b (int i))
                        (rd c (int i)) (rd e (int i)) (Fin 0))) = Fin v1
               \<and> b ! i = Fin b' \<and> \<bar>v1 - b'\<bar> \<le> 11 * d + d32"
    using v q(1) by simp
qed

lemma u_fl_at_left:
  assumes "r 0 = 0" and "t1 > t \<Longrightarrow> rnd r (t1 - t) \<noteq> Fin 0"
  shows "(if t1 > t then rnd r (rnd r (t - t) / rnd r (t1 - t)) else Fin 0) = Fin 0"
proof (cases "t1 > t")
  case False
  then show ?thesis by simp
next
  case True
  then obtain x y where xy: "t = Fin x" "t1 = Fin y" by (cases t; cases t1) auto
  with assms(2) True have "r (y - x) \<noteq> 0" by simp
  then show ?thesis using True xy assms(1) by simp
qed

lemma u_fl_at_right:
  assumes "r 1 = 1" and "t0 < t" and "rnd r (t - t0) \<noteq> Fin 0"
  shows "rnd r (rnd r (t - t0) / rnd r (t - t0)) = Fin 1"
proof -
  obtain x y where xy: "t0 = Fin x" "t = Fin y" using assms(2) by (cases t; cases t0) auto
  with assms(3) have "r (y - x) \<noteq> 0" by simp
  then show ?thesis using xy assms(1) by simp
qed

lemma sample_fl_at_sample:
  assumes "pose_rows (frames ch)" and "sorted_wrt (<) (times_scaled ch)"
    and "k < length (times_scaled ch)" and "k < length (frames ch)"
    and rd: "rounds r 8 d" "d \<le> 1/20" and r0: "r 0 = 0" and r1: "r 1 = 1"
    and st: "rounds s 1 d32"
    and apart: "sorted_wrt (\<lambda>a b. rnd r (b - a) \<noteq> Fin 0) (times_scaled ch)"
  shows "\<exists>out. sampleCatmullRom_fl r s ch (times_scaled ch ! k) = Inr out
           \<and> near_row (11 * d + d32) out (frames ch ! k)"
proof -
  let ?fs = "frames ch"
  let ?ts = "times_scaled ch"
  let ?t = "?ts ! k"
  let ?last = "int (length ?fs) - 1"
  have ne: "?fs \<noteq> []" using assms(4) by auto
  have pose: "pose_row row" if "row \<in> set ?fs" for row
    using assms(1) that by (simp add: pose_rows_def list_all_iff)
  have lb: "lowerBound ?ts ?t = max 1 (int k)"
    using lowerBound_at_sample [OF assms(2,3)] .
  define i1 where "i1 = max 1 (int k)"
  obtain a b c e where rows: "row_or ?fs (max (i1 - 1 - 1) 0) 0 = Some a"
    "row_or ?fs (i1 - 1) 0 = Some b"
    "row_or ?fs i1 ?last = Some c"
    "row_or ?fs (min (i1 + 1) ?last) ?last = Some e"
    using four_rows [OF ne] by metis
  have pr: "pose_row a" "pose_row b" "pose_row c" "pose_row e"
    using rows by (auto intro: pose dest: row_or_in_set)
  define u where "u = (if rd ?ts i1 > rd ?ts (i1 - 1)
                       then rnd r (rnd r (?t - rd ?ts (i1 - 1)) / rnd r (rd ?ts i1 - rd ?ts (i1 - 1)))
                       else Fin 0)"
  have unfolded: "sampleCatmullRom_fl r s ch ?t
          = Inr (map (\<lambda>i. rnd s (clamp01 (catmullRom_fl r (rd a (int i)) (rd b (int i))
                              (rd c (int i)) (rd e (int i)) u))) [0..<COLS])"
    unfolding sampleCatmullRom_fl_def Let_def lb i1_def [symmetric] u_def [symmetric]
    using rows by simp
  show ?thesis
  proof (cases "k = 0")
    case True
    then have i1: "i1 = 1" by (simp add: i1_def)
    have t0: "rd ?ts (i1 - 1) = ?t" using True assms(3) i1 by (simp add: rd_def)
    have nz: "rnd r (rd ?ts i1 - ?t) \<noteq> Fin 0" if "rd ?ts i1 > ?t"
    proof (cases "1 < length ?ts")
      case False
      then have "rd ?ts i1 = NaN" using i1 by (simp add: rd_def)
      with that show ?thesis by simp
    next
      case l: True
      then have "rd ?ts i1 = ?ts ! 1" using i1 by (simp add: rd_def)
      moreover have "rnd r (?ts ! 1 - ?ts ! 0) \<noteq> Fin 0"
        using apart l by (simp add: sorted_wrt_iff_nth_less)
      ultimately show ?thesis using True by simp
    qed
    have "u = Fin 0" unfolding u_def t0 using r0 nz by (rule u_fl_at_left)
    moreover have "b = ?fs ! k"
      using rows(2) True i1 ne row_or_at [of 0 ?fs 0] by simp
    ultimately show ?thesis
      using unfolded sample_fl_at_0 [OF rd r0 st pr] by simp
  next
    case False
    then have i1: "i1 = int k" by (simp add: i1_def)
    have t1: "rd ?ts i1 = ?t" using assms(3) i1 by (simp add: rd_def)
    have tm: "rd ?ts (i1 - 1) = ?ts ! (k - 1)"
      using False assms(3) i1 by (simp add: rd_def nat_diff_distrib')
    have lt: "rd ?ts (i1 - 1) < ?t"
      using False assms(2,3) tm by (simp add: sorted_wrt_iff_nth_less)
    have nz: "rnd r (?t - rd ?ts (i1 - 1)) \<noteq> Fin 0"
      using False assms(3) apart tm by (simp add: sorted_wrt_iff_nth_less)
    have "u = Fin 1" unfolding u_def t1 using lt u_fl_at_right [OF r1 lt nz] by simp
    moreover have "c = ?fs ! k"
      using rows(3) i1 assms(4) row_or_at [of "int k" ?fs ?last] by simp
    ultimately show ?thesis
      using unfolded sample_fl_at_1 [OF rd r1 st pr] by simp
  qed
qed

text \<open>The examples: the rounding to ten binary places, and the chunk with a short row.\<close>

lemma fixed10_rounds: "rounds fixed10 B (1/2048)"
proof -
  have "\<bar>fixed10 x - x\<bar> \<le> 1/2048" for x
  proof -
    have "\<bar>of_int (round (x * 1024)) - x * 1024\<bar> \<le> 1/2"
      by (rule of_int_round_abs_le)
    then show ?thesis unfolding fixed10_def by (simp add: field_simps abs_if split: if_splits)
  qed
  then show ?thesis by (simp add: rounds_def)
qed

lemma fixed10_values: "fixed10 0 = 0" "fixed10 1 = 1" "fixed10 (1/2) = 1/2"
  by (simp_all add: fixed10_def)

lemma ragged_frames: "frames chunk_ragged = [replicate 15 (Fin 0.25), [Fin 0.5]]"
  by (simp add: chunk_ragged_def begin_chunk_def new_chunk_def msg_ragged_def Let_def
      COLS_def or_else_def clamp01_def)

lemma ragged_times: "times_scaled chunk_ragged = [Fin 0, Fin 0.02]"
  by (simp add: chunk_ragged_def begin_chunk_def new_chunk_def msg_ragged_def Let_def
      COLS_def or_else_def buildTimes_def rawTail_def rd_def)

lemma ragged_active:
  "active (pushChunk (env_at 0) msg_ragged (createVisemeScheduler no_opts 0)) = Some chunk_ragged"
  by (simp add: chunk_ragged_def pushChunk_def startNext_def Let_def audible_def
      createVisemeScheduler_def new_chunk_def msg_ragged_def or_else_def begin_chunk_def)

lemma catmullRom_NaN2 [simp]: "catmullRom p0 p1 NaN p3 u = NaN"
  by (simp add: catmullRom_def Let_def)

text \<open>
  Claim C5 as stated fails at \<open>chunk_ragged\<close>, the chunk that \<open>pushChunk\<close> starts for
  \<^verbatim>\<open>{ viseme: [[0.25 x 15], [0.5]], viseme_times: [0, 1] }\<close>: its time axis is strictly
  increasing, and the sample at \<open>times[0]\<close> is \<^verbatim>\<open>NaN\<close> on channels 1 to 14, where frame 0
  is 0.25.
\<close>

theorem sample_ragged_not_frame:
  "active (pushChunk (env_at 0) msg_ragged (createVisemeScheduler no_opts 0)) = Some chunk_ragged
   \<and> sorted_wrt (<) (times_scaled chunk_ragged)
   \<and> frames chunk_ragged ! 0 = replicate 15 (Fin 0.25)
   \<and> sampleCatmullRom chunk_ragged (times_scaled chunk_ragged ! 0)
       = Inr (Fin 0.25 # replicate 14 NaN)
   \<and> sampleCatmullRom chunk_ragged (times_scaled chunk_ragged ! 0)
       \<noteq> Inr (frames chunk_ragged ! 0)"
proof -
  have sorted: "sorted_wrt (<) (times_scaled chunk_ragged)"
    by (simp add: ragged_times)
  have lb: "lowerBound (times_scaled chunk_ragged) (times_scaled chunk_ragged ! 0) = 1"
    using lowerBound_at_sample [OF sorted, of 0] by (simp add: ragged_times)
  have lb': "lowerBound [Fin 0, Fin 0.02] (Fin 0) = 1"
    using lb by (simp add: ragged_times)
  have rep: "replicate 14 NaN = [NaN, NaN, NaN, NaN, NaN, NaN, NaN, NaN, NaN, NaN, NaN, NaN, NaN, NaN]"
    by (simp add: numeral_eq_Suc)
  have sample: "sampleCatmullRom chunk_ragged (times_scaled chunk_ragged ! 0)
                  = Inr (Fin 0.25 # replicate 14 NaN)"
    unfolding rep using lb'
    by (simp add: sampleCatmullRom_def Let_def ragged_frames ragged_times row_or_def
        row_at_def rd_def COLS_def upt_rec catmullRom_def clamp01_def)
  have "frames chunk_ragged ! 0 = replicate 15 (Fin 0.25)" by (simp add: ragged_frames)
  moreover have "Fin 0.25 # replicate 14 NaN \<noteq> replicate 15 (Fin 0.25)"
    by (simp add: numeral_eq_Suc)
  ultimately show ?thesis using ragged_active sorted sample by simp
qed

text \<open>
  Claim C5, as the code has it. For a chunk whose frames are poses (15 channels, each in
  \<open>[0,1]\<close>) and whose scaled time axis is strictly increasing, and an index \<open>k\<close> of both:
  in exact arithmetic the sample at \<open>times[k]\<close> is frame \<open>k\<close> on every channel; and with
  the roundings of the program, each double operation off by at most \<open>d\<close> (on numbers up to
  8, with 0 and 1 kept and two sample times kept apart) and the float32 store by at most
  \<open>d32\<close> (on numbers up to 1), the local parameter is still exactly 1 (or 0 for \<open>k = 0\<close>)
  and the sample is within \<open>11 * d + d32\<close> of frame \<open>k\<close> on every channel.
\<close>

theorem sampleCatmullRom_at_sample:
  assumes "pose_rows (frames ch)" and "sorted_wrt (<) (times_scaled ch)"
    and "k < length (times_scaled ch)" and "k < length (frames ch)"
    and "rounds r 8 d" and "d \<le> 1/20" and "r 0 = 0" and "r 1 = 1"
    and "rounds s 1 d32"
    and "sorted_wrt (\<lambda>a b. rnd r (b - a) \<noteq> Fin 0) (times_scaled ch)"
  shows "sampleCatmullRom ch (times_scaled ch ! k) = Inr (frames ch ! k)
       \<and> (\<exists>out. sampleCatmullRom_fl r s ch (times_scaled ch ! k) = Inr out
              \<and> near_row (11 * d + d32) out (frames ch ! k))"
  using sample_exact_at_sample [OF assms(1-4)] sample_fl_at_sample [OF assms]
  by simp

theorem sampleCatmullRom_at_sample_witness:
  "sampleCatmullRom chunk_scenario1 (Fin 0.5) = Inr (Fin 1 # replicate 14 (Fin 0))
   \<and> (\<exists>out. sampleCatmullRom_fl fixed10 fixed10 chunk_scenario1 (Fin 0.5) = Inr out
          \<and> near_row (3/512) out (Fin 1 # replicate 14 (Fin 0)))"
  using sampleCatmullRom_at_sample [of chunk_scenario1 1 fixed10 "1/2048" fixed10 "1/2048"]
    fixed10_rounds [of 8] fixed10_rounds [of 1]
  by (simp add: scenario1_frames scenario1_times pose_rows_def pose_row_def in01_def COLS_def
      list_all_iff fixed10_values)

text \<open>A message whose rows have at least \<open>COLS\<close> elements gives a chunk of poses.\<close>

lemma new_chunk_pose_rows:
  assumes "list_all (\<lambda>row. COLS \<le> length (rows_of row)) (rows_of (viseme msg))"
  shows "pose_rows (frames (new_chunk m msg))"
proof -
  have "in01 (clamp01 (or_else v (Fin 0)))" for v
    using or_else_zero_finite [of v] by (auto intro: clamp01_in01)
  then show ?thesis using assms
    by (simp add: new_chunk_def pose_rows_def pose_row_def Let_def list_all_iff)
qed

section \<open>The range of the frame when every row is full\<close>

text \<open>Numbers stay numbers under the operations of the scheduler.\<close>

lemma isFinite_iff: "isFinite x \<longleftrightarrow> (\<exists>r. x = Fin r)"
  by (cases x) simp_all

lemma in01_finite: "in01 x \<Longrightarrow> isFinite x"
  by (cases x) (simp_all add: in01_def)

lemma finite_ops:
  assumes "isFinite a" and "isFinite b"
  shows "isFinite (a + b)" "isFinite (a - b)" "isFinite (a * b)" "isFinite (- a)"
    "isFinite (Math_max a b)" "isFinite (Math_min a b)" "isFinite (Math_exp a)"
  using assms by (auto simp: isFinite_iff)

lemma finite_div: "isFinite a \<Longrightarrow> Fin 0 < b \<Longrightarrow> isFinite (a / b)"
  by (cases a; cases b) auto

lemma rd_finite:
  "list_all isFinite xs \<Longrightarrow> i < length xs \<Longrightarrow> isFinite (rd xs (int i))"
  by (simp add: rd_def list_all_length)

lemma rd_in01:
  "list_all in01 xs \<Longrightarrow> i < length xs \<Longrightarrow> in01 (rd xs (int i))"
  by (simp add: rd_def list_all_length)

lemma or_else_finite: "isFinite d \<Longrightarrow> isFinite (or_else x d)"
  by (cases x) (auto simp: or_else_def)

lemma tick_dt_bounds:
  assumes "isFinite (lastTick st)"
  shows "\<exists>d. tick_dt e st = Fin d \<and> 0 < d \<and> d \<le> 0.033"
  using assms by (auto simp: tick_dt_def isFinite_iff max_def min_def)

lemma clamp01_finite_in01: "isFinite x \<Longrightarrow> in01 (clamp01 x)"
  using clamp01_in01 by (cases x) auto

text \<open>The idle branch.\<close>

lemma relax_good:
  assumes "good_sched st" and "dt = Fin d" and "0 < d"
  shows "good_sched (snd (relax dt st))"
    and "\<exists>fr. fst (relax dt st) = Some fr \<and> length fr = COLS \<and> list_all in01 fr"
proof -
  obtain n where n: "neutralDecayPerSec st = Fin n" "0 \<le> n"
    using assms(1) by (cases "neutralDecayPerSec st") (auto simp: good_sched_def)
  define k where "k = exp (- n * d)"
  have k: "Math_exp (- neutralDecayPerSec st * dt) = Fin k" "0 < k" "k \<le> 1"
    using n assms(2,3) by (simp_all add: k_def mult_nonneg_nonneg)
  have pos_in: "in01 (rd (pos st) (int i) * Fin k)" if "i < COLS" for i
  proof -
    have "in01 (rd (pos st) (int i))"
      using assms(1) that by (intro rd_in01) (simp_all add: good_sched_def)
    then obtain p where "rd (pos st) (int i) = Fin p" "0 \<le> p" "p \<le> 1"
      using in01_Fin by blast
    moreover have "p * k \<le> 1" using \<open>p \<le> 1\<close> \<open>0 \<le> p\<close> k(2,3) by (simp add: mult_le_one)
    ultimately show ?thesis using k(2) by (simp add: in01_def)
  qed
  have vel_fin: "isFinite (rd (vel st) (int i) * Fin k)" if "i < COLS" for i
  proof -
    have "isFinite (rd (vel st) (int i))"
      using assms(1) that by (intro rd_finite) (simp_all add: good_sched_def)
    then show ?thesis by (simp add: finite_ops)
  qed
  show "good_sched (snd (relax dt st))"
    using assms(1) pos_in vel_fin
    by (simp add: relax_def Let_def k(1) good_sched_def list_all_iff)
  show "\<exists>fr. fst (relax dt st) = Some fr \<and> length fr = COLS \<and> list_all in01 fr"
    using pos_in by (simp add: relax_def Let_def k(1) list_all_iff)
qed

text \<open>The active branch.\<close>

lemma playback_time_finite:
  assumes "isFinite (duration ch)" and "isFinite (startedAt ch)"
  shows "isFinite (playback_time e ch)"
proof (cases "el_currentTime e")
  case NaN
  then show ?thesis using assms by (simp add: playback_time_def finite_ops)
next
  case (Fin c)
  then show ?thesis using assms by (simp add: playback_time_def finite_ops)
qed

lemma u_finite:
  assumes "isFinite t"
  shows "isFinite (if t1 > t0 then (t - t0) / (t1 - t0) else Fin 0)"
  using assms by (cases t; cases t0; cases t1) auto

lemma catmullRom_finite:
  "isFinite p0 \<Longrightarrow> isFinite p1 \<Longrightarrow> isFinite p2 \<Longrightarrow> isFinite p3 \<Longrightarrow> isFinite u
     \<Longrightarrow> isFinite (catmullRom p0 p1 p2 p3 u)"
  by (simp add: catmullRom_def Let_def finite_ops)

lemma pose_row_rd_finite: "pose_row r \<Longrightarrow> i < COLS \<Longrightarrow> isFinite (rd r (int i))"
  using pose_row_rd [of r i] by (auto simp: isFinite_iff)

lemma sample_in01:
  assumes "pose_rows (frames ch)" and "frames ch \<noteq> []" and "isFinite t"
  shows "\<exists>tmp. sampleCatmullRom ch t = Inr tmp \<and> length tmp = COLS \<and> list_all in01 tmp"
proof -
  let ?fs = "frames ch"
  let ?ts = "times_scaled ch"
  let ?lb = "lowerBound ?ts t"
  have pose: "pose_row r" if "r \<in> set ?fs" for r
    using assms(1) that by (simp add: pose_rows_def list_all_iff)
  obtain a b c d where rows: "row_or ?fs (max (?lb - 1 - 1) 0) 0 = Some a"
    "row_or ?fs (?lb - 1) 0 = Some b"
    "row_or ?fs ?lb (int (length ?fs) - 1) = Some c"
    "row_or ?fs (min (?lb + 1) (int (length ?fs) - 1)) (int (length ?fs) - 1) = Some d"
    using four_rows [OF assms(2)] by metis
  have pr: "pose_row a" "pose_row b" "pose_row c" "pose_row d"
    using rows by (auto intro: pose dest: row_or_in_set)
  define u where "u = (if rd ?ts ?lb > rd ?ts (?lb - 1)
                       then (t - rd ?ts (?lb - 1)) / (rd ?ts ?lb - rd ?ts (?lb - 1)) else Fin 0)"
  have uf: "isFinite u" unfolding u_def using assms(3) by (rule u_finite)
  have unfolded: "sampleCatmullRom ch t
          = Inr (map (\<lambda>i. clamp01 (catmullRom (rd a (int i)) (rd b (int i)) (rd c (int i))
                              (rd d (int i)) u)) [0..<COLS])"
    unfolding sampleCatmullRom_def Let_def u_def [symmetric]
    using rows by simp
  have "in01 (clamp01 (catmullRom (rd a (int i)) (rd b (int i)) (rd c (int i)) (rd d (int i)) u))"
    if "i < COLS" for i
    using pr that uf by (intro clamp01_finite_in01 catmullRom_finite pose_row_rd_finite)
  then show ?thesis unfolding unfolded by (simp add: list_all_iff)
qed

lemma lerp_finite: "isFinite a \<Longrightarrow> isFinite b \<Longrightarrow> isFinite t \<Longrightarrow> isFinite (lerp a b t)"
  by (auto simp: isFinite_iff lerp_def)

lemma crossfade_finite:
  assumes "Fin 0 < crossfadeS st" and "isFinite (fadeInEnd ch)"
    and "length (fadeInFrom ch) = COLS" and "list_all isFinite (fadeInFrom ch)"
    and "length tmp = COLS" and "list_all isFinite tmp"
  shows "length (crossfade e st ch tmp) = COLS \<and> list_all isFinite (crossfade e st ch tmp)"
proof (cases "Fin (now e) < fadeInEnd ch")
  case False
  then show ?thesis using assms by (simp add: crossfade_def)
next
  case True
  define cfk where "cfk = Fin 1 - Math_max (Fin 0) ((fadeInEnd ch - Fin (now e)) / crossfadeS st)"
  have "isFinite ((fadeInEnd ch - Fin (now e)) / crossfadeS st)"
    using assms(1,2) by (intro finite_div finite_ops) simp_all
  then have cf: "isFinite cfk" unfolding cfk_def by (intro finite_ops) simp_all
  have "isFinite (lerp (rd (fadeInFrom ch) (int i)) (rd tmp (int i)) cfk)" if "i < COLS" for i
    using assms(3-6) that cf by (intro lerp_finite rd_finite) simp_all
  then show ?thesis using True
    by (simp add: crossfade_def Let_def cfk_def [symmetric] list_all_iff)
qed

lemma spring_good:
  assumes "good_sched st" and "isFinite dt" and "length tmp = COLS" and "list_all isFinite tmp"
    and "i < COLS"
  shows "isFinite (fst (spring st dt tmp i)) \<and> in01 (snd (spring st dt tmp i))"
proof -
  have p: "isFinite (rd (pos st) (int i))"
    using assms(1,5) by (intro in01_finite rd_in01) (simp_all add: good_sched_def)
  have v: "isFinite (rd (vel st) (int i))"
    using assms(1,5) by (intro rd_finite) (simp_all add: good_sched_def)
  have t: "isFinite (rd tmp (int i))"
    using assms(3,4,5) by (intro rd_finite) simp_all
  have par: "isFinite (zeta st)" "isFinite (freqBase st)" "isFinite (freqJaw st)"
    "isFinite (or_else (exaggeration st) (Fin 1))"
    using assms(1) by (simp_all add: good_sched_def or_else_finite)
  obtain f where f: "(if i = 0 then freqJaw st else freqBase st) = Fin f"
    using par(2,3) by (cases "i = 0") (auto simp: isFinite_iff)
  from p v t par(1,4) assms(2) obtain p' v' t' z x d where
    "rd (pos st) (int i) = Fin p'" "rd (vel st) (int i) = Fin v'" "rd tmp (int i) = Fin t'"
    "zeta st = Fin z" "or_else (exaggeration st) (Fin 1) = Fin x" "dt = Fin d"
    by (auto simp: isFinite_iff)
  then show ?thesis
    using f by (simp add: spring_def Let_def Math_PI_def clamp01_finite_in01)
qed

lemma muscle_good:
  assumes "good_sched st" and "isFinite dt" and "length tmp = COLS" and "list_all isFinite tmp"
  shows "good_sched (snd (muscle dt tmp st))"
    and "\<exists>fr. fst (muscle dt tmp st) = Some fr \<and> length fr = COLS \<and> list_all in01 fr"
proof -
  have sp: "isFinite (fst (spring st dt tmp i)) \<and> in01 (snd (spring st dt tmp i))"
    if "i < COLS" for i
    using spring_good [OF assms that] .
  show "good_sched (snd (muscle dt tmp st))"
    using assms(1) sp by (simp add: muscle_def Let_def good_sched_def list_all_iff)
  show "\<exists>fr. fst (muscle dt tmp st) = Some fr \<and> length fr = COLS \<and> list_all in01 fr"
    using sp by (simp add: muscle_def Let_def list_all_iff)
qed

lemma good_sched_lastTick:
  "good_sched st \<Longrightarrow> good_sched (st \<lparr> lastTick := Fin t \<rparr>)"
  by (simp add: good_sched_def)

lemma getFrame_good:
  assumes "good_sched st"
  shows "\<exists>fr st1. getFrame e st = Inr (Some fr, st1) \<and> good_sched st1
           \<and> length fr = COLS \<and> list_all in01 fr"
proof -
  let ?st1 = "st \<lparr> lastTick := Fin (now e) \<rparr>"
  have g1: "good_sched ?st1" using assms by (rule good_sched_lastTick)
  obtain d where d: "tick_dt e st = Fin d" "0 < d"
    using tick_dt_bounds [of st e] assms by (auto simp: good_sched_def)
  have idle: "\<exists>fr st2. relax (tick_dt e st) ?st1 = (Some fr, st2) \<and> good_sched st2
                \<and> length fr = COLS \<and> list_all in01 fr"
    using relax_good [OF g1 d] by (cases "relax (tick_dt e st) ?st1") auto
  show ?thesis
  proof (cases "active st")
    case None
    then show ?thesis using idle by (simp add: getFrame_def Let_def)
  next
    case (Some ch)
    show ?thesis
    proof (cases "frames ch = [] \<or> times_scaled ch = []")
      case True
      then show ?thesis using Some idle by (simp add: getFrame_def Let_def)
    next
      case False
      have gc: "good_chunk ch" using assms Some by (simp add: good_sched_def)
      have tf: "isFinite (playback_time e ch)"
        using gc by (intro playback_time_finite) (simp_all add: good_chunk_def)
      obtain tmp where tmp: "sampleCatmullRom ch (playback_time e ch) = Inr tmp"
        "length tmp = COLS" "list_all in01 tmp"
        using sample_in01 [OF _ _ tf, of ch] gc False by (auto simp: good_chunk_def)
      have tmpf: "list_all isFinite tmp"
        using tmp(3) by (auto simp: list_all_iff intro: in01_finite)
      have cf: "length (crossfade e ?st1 ch tmp) = COLS"
        "list_all isFinite (crossfade e ?st1 ch tmp)"
        using crossfade_finite [of ?st1 ch tmp e] g1 gc tmp(2) tmpf
        by (simp_all add: good_sched_def good_chunk_def)
      have dtf: "isFinite (tick_dt e st)" using d by simp
      have "\<exists>fr st2. muscle (tick_dt e st) (crossfade e ?st1 ch tmp) ?st1 = (Some fr, st2)
              \<and> good_sched st2 \<and> length fr = COLS \<and> list_all in01 fr"
        using muscle_good [OF g1 dtf cf]
        by (cases "muscle (tick_dt e st) (crossfade e ?st1 ch tmp) ?st1") auto
      then show ?thesis using Some False tmp(1) by (simp add: getFrame_def Let_def)
    qed
  qed
qed

text \<open>Chunks and activation.\<close>

lemma buildTimes_finite: "list_all isFinite (buildTimes n msg)"
proof -
  have "isFinite t" if "Fin 0 \<le> t" for t using that by (cases t) simp_all
  then show ?thesis using buildTimes_nondecreasing [of n msg]
    by (auto simp: list_all_iff)
qed

lemma new_chunk_good:
  assumes "full_rows msg"
  shows "good_chunk (new_chunk m msg)"
proof -
  have "pose_rows (frames (new_chunk m msg))"
    using assms by (intro new_chunk_pose_rows) (simp add: full_rows_def)
  moreover have "list_all isFinite (timesRaw (new_chunk m msg))"
    by (simp add: new_chunk_def Let_def buildTimes_finite)
  moreover have "isFinite (duration (new_chunk m msg))"
    using or_else_zero_finite [of "Number (duration_ms msg)"]
    by (auto simp: new_chunk_def Let_def)
  ultimately show ?thesis
    by (simp add: good_chunk_def) (simp add: new_chunk_def Let_def list_all_iff)
qed

lemma good_chunk_audio:
  "good_chunk ch \<Longrightarrow> good_chunk (ch \<lparr> audioEl := a \<rparr>)"
  by (simp add: good_chunk_def)

lemma begin_chunk_good:
  assumes "good_chunk ch" and "good_sched st" and "isFinite d"
  shows "good_chunk (begin_chunk e st d ch)"
proof -
  obtain r where r: "rawTail ch = Fin r" using rawTail_finite by blast
  obtain D where D: "d = Fin D" using assms(3) by (auto simp: isFinite_iff)
  have raw: "list_all isFinite (timesRaw ch)" using assms(1) by (simp add: good_chunk_def)
  have ts: "list_all isFinite (times_scaled (begin_chunk e st d ch))"
    using rescale_finite [OF r, of e st D] raw D by simp
  have dur: "isFinite (duration (begin_chunk e st d ch))"
    using D by (simp add: begin_chunk_def Let_def or_else_finite)
  have cs: "isFinite (crossfadeS st)"
    using assms(2) by (cases "crossfadeS st") (simp_all add: good_sched_def)
  have fe: "isFinite (fadeInEnd (begin_chunk e st d ch))"
    using cs by (simp add: begin_chunk_def Let_def finite_ops)
  have ff: "length (fadeInFrom (begin_chunk e st d ch)) = COLS"
    "list_all isFinite (fadeInFrom (begin_chunk e st d ch))"
    using assms(2) by (auto simp: begin_chunk_def Let_def good_sched_def list_all_iff
        intro: in01_finite)
  have same: "frames (begin_chunk e st d ch) = frames ch"
    "timesRaw (begin_chunk e st d ch) = timesRaw ch"
    "isFinite (startedAt (begin_chunk e st d ch))"
    by (simp_all add: begin_chunk_def Let_def)
  show ?thesis
    using assms(1) ts dur fe ff same by (simp add: good_chunk_def)
qed

lemma onMeta_good:
  assumes "good_chunk ch" and "good_sched st"
  shows "good_chunk (onMeta e st ch)"
  unfolding onMeta_def Let_def
  using assms begin_duration_finite(2) [of e ch]
  by (intro begin_chunk_good good_chunk_audio) simp_all

lemma good_sched_active:
  "good_sched st \<Longrightarrow> good_chunk ch \<Longrightarrow> good_sched (st \<lparr> active := Some ch \<rparr>)"
  by (simp add: good_sched_def)

lemma startNext_good:
  assumes "good_sched st"
  shows "good_sched (startNext e st)"
proof (cases "active st = None")
  case False
  then show ?thesis using assms by (simp add: startNext_noop)
next
  case True
  show ?thesis
  proof (cases "queue st")
    case Nil
    then show ?thesis using assms by (simp add: startNext_empty)
  next
    case (Cons ch rest)
    define st1 where "st1 = st \<lparr> queue := rest, active := Some ch, started := started st @ [ch] \<rparr>"
    have gc: "good_chunk ch" using assms Cons by (simp add: good_sched_def)
    have g1: "good_sched st1" using assms Cons by (simp add: st1_def good_sched_def)
    define ch1 where
      "ch1 = ch \<lparr> audioEl := map_option (\<lambda>a. a \<lparr> listening := True \<rparr>) (audioEl ch) \<rparr>"
    have gc1: "good_chunk ch1" unfolding ch1_def using gc by (rule good_chunk_audio)
    have a: "good_sched (st1 \<lparr> active := Some (onMeta e st1 ch1) \<rparr>)"
      using g1 gc1 by (intro good_sched_active onMeta_good)
    have b: "good_sched (st1 \<lparr> active := Some ch1 \<rparr>)"
      using g1 gc1 by (intro good_sched_active)
    have c: "good_sched (st1 \<lparr> active := Some (begin_chunk e st1
                (or_else (duration ch) (rawTail ch)) ch) \<rparr>)"
      using g1 gc begin_duration_finite(1) [of ch] by (intro good_sched_active begin_chunk_good)
    show ?thesis
      using True Cons a b c
      by (simp add: startNext_def Let_def st1_def [symmetric] ch1_def [symmetric])
  qed
qed

lemma step_good:
  assumes "good_sched st" and "good_event ev"
  shows "good_sched (step st ev)"
proof (cases ev)
  case (PushChunk e msg)
  then have "good_chunk (new_chunk (muted st) msg)"
    using assms(2) by (simp add: new_chunk_good)
  then have "good_sched (st \<lparr> queue := queue st @ [new_chunk (muted st) msg],
                             submitted := submitted st @ [new_chunk (muted st) msg] \<rparr>)"
    using assms(1) by (simp add: good_sched_def)
  then show ?thesis using PushChunk by (simp add: pushChunk_def Let_def startNext_good)
next
  case (GetFrame e)
  then show ?thesis using getFrame_good [OF assms(1), of e] by auto
next
  case (SetMuted v)
  have "good_sched (st \<lparr> muted := v \<rparr>)" using assms(1) by (simp add: good_sched_def)
  moreover have "good_sched (st \<lparr> muted := v, active := map_option
                   (\<lambda>ch. ch \<lparr> audioEl := map_option (\<lambda>a. a \<lparr> playing := False \<rparr>) (audioEl ch) \<rparr>)
                   (active st) \<rparr>)"
    using assms(1) by (cases "active st") (simp_all add: good_sched_def good_chunk_def)
  ultimately show ?thesis using SetMuted by (cases v) (simp_all add: setMuted_def Let_def)
next
  case Stop
  then show ?thesis using assms(1) by (simp add: stop_def good_sched_def)
next
  case (Completed e)
  have "good_sched (st \<lparr> active := None \<rparr>)" using assms(1) by (simp add: good_sched_def)
  then show ?thesis using Completed by (simp add: startNext_good)
next
  case (MetaLoaded e)
  show ?thesis
  proof (cases "active st")
    case None
    then show ?thesis using MetaLoaded assms(1) by simp
  next
    case (Some ch)
    then have "good_chunk ch" using assms(1) by (simp add: good_sched_def)
    then have "good_sched (st \<lparr> active := Some (onMeta e st ch) \<rparr>)"
      using assms(1) by (intro good_sched_active onMeta_good)
    then show ?thesis using MetaLoaded Some assms(1) by (simp split: option.splits)
  qed
qed

lemma run_good: "good_sched st \<Longrightarrow> list_all good_event evs \<Longrightarrow> good_sched (run st evs)"
  by (induction evs arbitrary: st) (simp_all add: step_good)

lemma init_good: "good_sched (createVisemeScheduler no_opts t0)"
  by (simp add: good_sched_def createVisemeScheduler_def no_opts_def in01_def list_all_iff)

text \<open>
  In exact arithmetic the range invariant holds as long as every row of every message has
  at least \<open>COLS\<close> elements: after any run of such events on a scheduler with the default
  options, \<open>getFrame\<close> returns 15 values in \<open>[0,1]\<close>. This is a statement about the exact
  model only: it locates the \<^verbatim>\<open>NaN\<close> of the short rows. The velocities of the program are
  float32 values that nothing bounds, and their overflow is outside this model.
\<close>

lemma getFrame_in_range:
  assumes "list_all good_event evs"
  shows "\<exists>fr st1. getFrame e (run (createVisemeScheduler no_opts t0) evs) = Inr (Some fr, st1)
           \<and> length fr = 15 \<and> list_all in01 fr"
proof -
  have "good_sched (run (createVisemeScheduler no_opts t0) evs)"
    using init_good assms by (rule run_good)
  from getFrame_good [OF this, of e] show ?thesis
    unfolding COLS_def by blast
qed

end
